theory Spec2Isabelle
  imports Main "HOL-Library.Sublist"
begin

section \<open>Strings\<close>

text \<open>
  Python strings are modelled as \<^typ>\<open>string\<close>; a character stands for a code point
  below 256.  \<open>str.strip()\<close> removes the characters for which \<open>str.isspace\<close> holds:
  in that range the code points 9-13, 28-32, 133 and 160.
\<close>

definition py_isspace :: "char \<Rightarrow> bool" where
  "py_isspace c = (of_char c \<in> {9, 10, 11, 12, 13, 28, 29, 30, 31, 32, 133, 160 :: nat})"

definition strip_chars :: "(char \<Rightarrow> bool) \<Rightarrow> string \<Rightarrow> string" where
  "strip_chars P s = rev (dropWhile P (rev (dropWhile P s)))"

definition py_strip :: "string \<Rightarrow> string" where
  "py_strip s = strip_chars py_isspace s"

text \<open>\<open>s.strip(c)\<close> for a one-character argument.\<close>

definition py_strip_char :: "char \<Rightarrow> string \<Rightarrow> string" where
  "py_strip_char c s = strip_chars (\<lambda>x. x = c) s"

text \<open>\<open>old in s\<close> on strings.\<close>

definition py_contains :: "string \<Rightarrow> string \<Rightarrow> bool" where
  "py_contains old s = sublist old s"

fun strip_prefix :: "string \<Rightarrow> string \<Rightarrow> string option" where
  "strip_prefix [] s = Some s"
| "strip_prefix (p # ps) [] = None"
| "strip_prefix (p # ps) (c # cs) = (if p = c then strip_prefix ps cs else None)"

text \<open>
  \<open>s.replace(old, new)\<close> for a non-empty \<open>old\<close>: the occurrences are replaced from
  left to right and do not overlap.
\<close>

fun py_replace :: "string \<Rightarrow> string \<Rightarrow> string \<Rightarrow> string" where
  "py_replace old new [] = []"
| "py_replace old new (c # cs) =
     (case strip_prefix old (c # cs) of
        Some rest \<Rightarrow> (if old = [] then c # py_replace old new cs
                      else new @ py_replace old new (drop (length old - 1) cs))
      | None \<Rightarrow> c # py_replace old new cs)"

text \<open>
  \<open>repr(s)\<close> of a string, which is how a file name appears in the message of an
  \<open>OSError\<close>: the string in single quotes, or in double quotes when it holds a single
  quote and no double quote; the backslash and the chosen quote are escaped, tab, line
  feed and carriage return are written \<open>\t\<close>, \<open>\n\<close>, \<open>\r\<close>, and every other
  character that is not printable is written \<open>\xhh\<close>.  A character is a code point
  below 256.
\<close>

definition hex_digit :: "nat \<Rightarrow> char" where
  "hex_digit n = ''0123456789abcdef'' ! n"

definition py_isprintable :: "char \<Rightarrow> bool" where
  "py_isprintable c =
     (let n = (of_char c :: nat) in (32 \<le> n \<and> n < 127) \<or> (161 \<le> n \<and> n \<noteq> 173))"

definition repr_char :: "char \<Rightarrow> char \<Rightarrow> string" where
  "repr_char q c =
     (if c = q \<or> c = CHR 0x5C then [CHR 0x5C, c]
      else if c = CHR 0x09 then [CHR 0x5C, CHR ''t'']
      else if c = CHR 0x0A then [CHR 0x5C, CHR ''n'']
      else if c = CHR 0x0D then [CHR 0x5C, CHR ''r'']
      else if py_isprintable c then [c]
      else [CHR 0x5C, CHR ''x'', hex_digit (of_char c div 16), hex_digit (of_char c mod 16)])"

definition py_repr :: "string \<Rightarrow> string" where
  "py_repr s =
     (let q = (if CHR 0x27 \<in> set s \<and> CHR 0x22 \<notin> set s then CHR 0x22 else CHR 0x27)
      in q # concat (map (repr_char q) s) @ [q])"

section \<open>Exceptions\<close>

datatype exn =
    ValueError string
  | RuntimeError string
  | FileNotFoundError string
  | FileExistsError string
  | NotADirectoryError string
  | IsADirectoryError string
  | OSError string
  | SubprocessError string

text \<open>\<open>str(e)\<close>: the message the exception carries.\<close>

fun str_exn :: "exn \<Rightarrow> string" where
  "str_exn (ValueError m) = m"
| "str_exn (RuntimeError m) = m"
| "str_exn (FileNotFoundError m) = m"
| "str_exn (FileExistsError m) = m"
| "str_exn (NotADirectoryError m) = m"
| "str_exn (IsADirectoryError m) = m"
| "str_exn (OSError m) = m"
| "str_exn (SubprocessError m) = m"

section \<open>\<open>parse_github_url\<close>\<close>

text \<open>
  The pattern is
  \<^verbatim>\<open>github\.com[:/](?P<owner>[^/]+)/(?P<repo>[^/]+?)(?:\.git)?$\<close>
  and it is used with \<open>re.search\<close>, which tries the start positions from left to right
  and returns the first match.

  \<^item> \<open>$\<close> (no MULTILINE flag) matches at the end of the string and just before a line
    feed that is the last character.
  \<^item> \<open>(?:\.git)?\<close> is greedy: the suffix is tried first, the empty alternative second.
  \<^item> \<open>[^/]+?\<close> is lazy: the shortest non-empty run of non-slash characters after which
    the rest of the pattern matches.
  \<^item> \<open>[^/]+\<close> is greedy and must be followed by a slash; since the run itself has no
    slash, backtracking to a shorter run can never succeed, so only the maximal run
    is a candidate.
\<close>

definition at_end :: "string \<Rightarrow> bool" where
  "at_end t = (t = [] \<or> t = [CHR 0x0A])"

definition tail_ok :: "string \<Rightarrow> bool" where
  "tail_ok t = (case strip_prefix ''.git'' t of
                  Some t' \<Rightarrow> at_end t' \<or> at_end t
                | None \<Rightarrow> at_end t)"

fun repo_lazy :: "string \<Rightarrow> string \<Rightarrow> string option" where
  "repo_lazy acc [] = None"
| "repo_lazy acc (c # cs) =
     (if c = CHR ''/'' then None
      else if tail_ok cs then Some (acc @ [c])
      else repo_lazy (acc @ [c]) cs)"

definition match_here :: "string \<Rightarrow> (string \<times> string) option" where
  "match_here s =
     (case strip_prefix ''github.com'' s of
        None \<Rightarrow> None
      | Some [] \<Rightarrow> None
      | Some (sep # rest) \<Rightarrow>
          if sep = CHR '':'' \<or> sep = CHR ''/'' then
            (let owner = takeWhile (\<lambda>c. c \<noteq> CHR ''/'') rest;
                 after = dropWhile (\<lambda>c. c \<noteq> CHR ''/'') rest
             in if owner = [] then None
                else (case after of
                        [] \<Rightarrow> None
                      | _ # r \<Rightarrow> map_option (\<lambda>repo. (owner, repo)) (repo_lazy [] r)))
          else None)"

fun re_search :: "string \<Rightarrow> (string \<times> string) option" where
  "re_search [] = match_here []"
| "re_search (c # cs) =
     (case match_here (c # cs) of
        Some m \<Rightarrow> Some m
      | None \<Rightarrow> re_search cs)"

definition parse_github_url :: "string \<Rightarrow> exn + (string \<times> string)" where
  "parse_github_url url =
     (case re_search url of
        None \<Rightarrow> Inl (ValueError (''Invalid GitHub URL: '' @ url))
      | Some m \<Rightarrow> Inr m)"

section \<open>Paths\<close>

text \<open>
  \<open>pathlib.Path\<close> in its POSIX flavour: a path is an anchor (empty for a relative
  path, \<open>/\<close> or \<open>//\<close> for an absolute one) and a list of names.  Parsing splits at the
  slashes and drops empty names and single dots; \<open>..\<close> is kept.
\<close>

datatype ppath = PPath (anchor: string) (names: "string list")

fun split_on :: "char \<Rightarrow> string \<Rightarrow> string list" where
  "split_on c [] = [[]]"
| "split_on c (x # xs) =
     (if x = c then [] # split_on c xs
      else (case split_on c xs of
              [] \<Rightarrow> [[x]]
            | w # ws \<Rightarrow> (x # w) # ws))"

definition parse_anchor :: "string \<Rightarrow> string" where
  "parse_anchor s =
     (if prefix ''//'' s \<and> \<not> prefix ''///'' s then ''//''
      else if prefix ''/'' s then ''/''
      else [])"

definition parse_path :: "string \<Rightarrow> ppath" where
  "parse_path s =
     PPath (parse_anchor s) (filter (\<lambda>n. n \<noteq> [] \<and> n \<noteq> ''.'') (split_on CHR ''/'' s))"

fun join_names :: "string list \<Rightarrow> string" where
  "join_names [] = []"
| "join_names [n] = n"
| "join_names (n # m # ns) = n @ ''/'' @ join_names (m # ns)"

text \<open>\<open>str(p)\<close>\<close>

definition path_str :: "ppath \<Rightarrow> string" where
  "path_str p =
     (if names p = [] then (if anchor p = [] then ''.'' else anchor p)
      else anchor p @ join_names (names p))"

text \<open>\<open>p / s\<close>: an absolute right operand replaces the left one.\<close>

definition path_join :: "ppath \<Rightarrow> string \<Rightarrow> ppath" where
  "path_join p s =
     (let q = parse_path s
      in if anchor q \<noteq> [] then q else PPath (anchor p) (names p @ names q))"

text \<open>\<open>p.name\<close> and \<open>p.parent\<close>\<close>

definition path_name :: "ppath \<Rightarrow> string" where
  "path_name p = (if names p = [] then [] else last (names p))"

definition path_parent :: "ppath \<Rightarrow> ppath" where
  "path_parent p = PPath (anchor p) (butlast (names p))"

section \<open>The file system\<close>

text \<open>
  A file system maps the canonical location of an entry, the list of names from the
  root, to a directory or to a file with its content.  There are no symbolic links,
  no permissions and no other kinds of entries.  A path is looked up as POSIX does:
  from the root or from the working directory, name by name, every name but the last
  one in an existing directory, \<open>..\<close> leading to the parent.
\<close>

datatype node = Dir | File string

type_synonym loc = "string list"
type_synonym fs = "loc \<Rightarrow> node option"

datatype lookup_error = ENOENT | ENOTDIR

fun walk :: "fs \<Rightarrow> loc \<Rightarrow> string list \<Rightarrow> lookup_error + loc" where
  "walk f cur [] = Inr cur"
| "walk f cur (n # ns) =
     (case f cur of
        None \<Rightarrow> Inl ENOENT
      | Some (File c) \<Rightarrow> Inl ENOTDIR
      | Some Dir \<Rightarrow> (if n = ''..'' then walk f (butlast cur) ns else walk f (cur @ [n]) ns))"

definition locate :: "loc \<Rightarrow> fs \<Rightarrow> ppath \<Rightarrow> lookup_error + loc" where
  "locate wd f p = walk f (if anchor p = [] then wd else []) (names p)"

definition lookup_exn :: "lookup_error \<Rightarrow> string \<Rightarrow> exn" where
  "lookup_exn e s =
     (case e of
        ENOENT \<Rightarrow> FileNotFoundError (''[Errno 2] No such file or directory: '' @ py_repr s)
      | ENOTDIR \<Rightarrow> NotADirectoryError (''[Errno 20] Not a directory: '' @ py_repr s))"

text \<open>\<open>p.exists()\<close>, \<open>p.is_dir()\<close>, and \<open>os.path.isdir(s)\<close> and \<open>os.path.exists(s)\<close>, which
  are false for the empty string.\<close>

definition path_exists :: "loc \<Rightarrow> fs \<Rightarrow> ppath \<Rightarrow> bool" where
  "path_exists wd f p = (case locate wd f p of Inl e \<Rightarrow> False | Inr q \<Rightarrow> f q \<noteq> None)"

definition path_is_dir :: "loc \<Rightarrow> fs \<Rightarrow> ppath \<Rightarrow> bool" where
  "path_is_dir wd f p = (case locate wd f p of Inl e \<Rightarrow> False | Inr q \<Rightarrow> f q = Some Dir)"

definition os_path_isdir :: "loc \<Rightarrow> fs \<Rightarrow> string \<Rightarrow> bool" where
  "os_path_isdir wd f s = (s \<noteq> [] \<and> path_is_dir wd f (parse_path s))"

definition os_path_exists :: "loc \<Rightarrow> fs \<Rightarrow> string \<Rightarrow> bool" where
  "os_path_exists wd f s = (s \<noteq> [] \<and> path_exists wd f (parse_path s))"

text \<open>\<open>os.mkdir(p)\<close>\<close>

definition os_mkdir :: "loc \<Rightarrow> ppath \<Rightarrow> fs \<Rightarrow> exn + fs" where
  "os_mkdir wd p f =
     (case locate wd f p of
        Inl e \<Rightarrow> Inl (lookup_exn e (path_str p))
      | Inr q \<Rightarrow>
          if names p = [] \<or> f q \<noteq> None
          then Inl (FileExistsError (''[Errno 17] File exists: '' @ py_repr (path_str p)))
          else Inr (f(q \<mapsto> Dir)))"

text \<open>
  \<open>Path.mkdir(parents, exist_ok)\<close> as pathlib writes it: \<open>os.mkdir\<close> first; on
  \<open>FileNotFoundError\<close> with \<open>parents\<close> the parent is made (with \<open>parents=True,
  exist_ok=True\<close>) and the directory is made again without \<open>parents\<close>; any other
  \<open>OSError\<close> is swallowed when \<open>exist_ok\<close> holds and the path is a directory.
\<close>

definition mkdir_once :: "bool \<Rightarrow> loc \<Rightarrow> ppath \<Rightarrow> fs \<Rightarrow> exn + fs" where
  "mkdir_once exist_ok wd p f =
     (case os_mkdir wd p f of
        Inr f' \<Rightarrow> Inr f'
      | Inl (FileNotFoundError m) \<Rightarrow> Inl (FileNotFoundError m)
      | Inl e \<Rightarrow> if exist_ok \<and> path_is_dir wd f p then Inr f else Inl e)"

function mkdir_parents :: "bool \<Rightarrow> loc \<Rightarrow> string \<Rightarrow> string list \<Rightarrow> fs \<Rightarrow> (exn + unit) \<times> fs" where
  "mkdir_parents exist_ok wd a ns f =
     (case os_mkdir wd (PPath a ns) f of
        Inr f' \<Rightarrow> (Inr (), f')
      | Inl (FileNotFoundError m) \<Rightarrow>
          if ns = [] then (Inl (FileNotFoundError m), f)
          else (case mkdir_parents True wd a (butlast ns) f of
                  (Inl e, f1) \<Rightarrow> (Inl e, f1)
                | (Inr u, f1) \<Rightarrow>
                    (case mkdir_once exist_ok wd (PPath a ns) f1 of
                       Inl e \<Rightarrow> (Inl e, f1)
                     | Inr f2 \<Rightarrow> (Inr (), f2)))
      | Inl e \<Rightarrow> if exist_ok \<and> path_is_dir wd f (PPath a ns) then (Inr (), f) else (Inl e, f))"
  by pat_completeness auto
termination
  by (relation "measure (\<lambda>(e, wd, a, ns, f). length ns)") auto

declare mkdir_parents.simps [simp del]

text \<open>\<open>open(p, "w")\<close> followed by \<open>write(c)\<close>, and \<open>open(s, "r")\<close> followed by \<open>read()\<close>.\<close>

definition write_text :: "loc \<Rightarrow> ppath \<Rightarrow> string \<Rightarrow> fs \<Rightarrow> exn + fs" where
  "write_text wd p c f =
     (case locate wd f p of
        Inl e \<Rightarrow> Inl (lookup_exn e (path_str p))
      | Inr q \<Rightarrow>
          (case f q of
             Some Dir \<Rightarrow> Inl (IsADirectoryError (''[Errno 21] Is a directory: '' @ py_repr (path_str p)))
           | _ \<Rightarrow> if names p = []
                  then Inl (FileNotFoundError (''[Errno 2] No such file or directory: '' @ py_repr (path_str p)))
                  else Inr (f(q \<mapsto> File c))))"

definition read_text :: "loc \<Rightarrow> string \<Rightarrow> fs \<Rightarrow> exn + string" where
  "read_text wd s f =
     (if s = [] then Inl (FileNotFoundError (''[Errno 2] No such file or directory: '' @ py_repr s))
      else (case locate wd f (parse_path s) of
              Inl e \<Rightarrow> Inl (lookup_exn e s)
            | Inr q \<Rightarrow>
                (case f q of
                   None \<Rightarrow> Inl (FileNotFoundError (''[Errno 2] No such file or directory: '' @ py_repr s))
                 | Some Dir \<Rightarrow> Inl (IsADirectoryError (''[Errno 21] Is a directory: '' @ py_repr s))
                 | Some (File c) \<Rightarrow> Inr c)))"

text \<open>\<open>os.remove(s)\<close>\<close>

definition os_remove :: "loc \<Rightarrow> string \<Rightarrow> fs \<Rightarrow> exn + fs" where
  "os_remove wd s f =
     (if s = [] then Inl (FileNotFoundError (''[Errno 2] No such file or directory: '' @ py_repr s))
      else (case locate wd f (parse_path s) of
              Inl e \<Rightarrow> Inl (lookup_exn e s)
            | Inr q \<Rightarrow>
                (case f q of
                   None \<Rightarrow> Inl (FileNotFoundError (''[Errno 2] No such file or directory: '' @ py_repr s))
                 | Some Dir \<Rightarrow> Inl (IsADirectoryError (''[Errno 21] Is a directory: '' @ py_repr s))
                 | Some (File c) \<Rightarrow> Inr (f(q := None)))))"

text \<open>
  \<open>shutil.rmtree(p, onerror=handle_remove_readonly)\<close>.  Without permissions the handler
  has nothing to repair: it repeats the failed call, which fails again, and that error
  leaves \<open>rmtree\<close>.  A directory is emptied and then removed by \<open>os.rmdir(p)\<close>.  That
  last step fails when \<open>p\<close> has no name or when its last name is \<open>..\<close>: the content is
  gone by then and the directory itself stays.  The error is the one of \<open>os.rmdir(p)\<close>
  in the emptied file system: \<open>EINVAL\<close> for \<open>.\<close>, \<open>EBUSY\<close> for the root, and for a path
  that ends in \<open>..\<close> the error of the lookup when a name on the way is gone and
  \<open>ENOTEMPTY\<close> otherwise.  In that lookup the leading \<open>..\<close> names are followed without
  a test: the working directory and the directories above it stay reachable for the
  process after they have been removed.
\<close>

definition remove_below :: "loc \<Rightarrow> fs \<Rightarrow> fs" where
  "remove_below q f = (\<lambda>x. if strict_prefix q x then None else f x)"

definition remove_tree :: "loc \<Rightarrow> fs \<Rightarrow> fs" where
  "remove_tree q f = (\<lambda>x. if prefix q x then None else f x)"

definition relocate :: "loc \<Rightarrow> fs \<Rightarrow> ppath \<Rightarrow> lookup_error + loc" where
  "relocate wd f p =
     (let k = length (takeWhile (\<lambda>n. n = ''..'') (names p))
      in walk f ((butlast ^^ k) (if anchor p = [] then wd else [])) (drop k (names p)))"

definition rmdir_error :: "loc \<Rightarrow> fs \<Rightarrow> ppath \<Rightarrow> exn" where
  "rmdir_error wd f p =
     (if names p = [] then
        (if anchor p = []
         then OSError (''[Errno 22] Invalid argument: '' @ py_repr (path_str p))
         else OSError (''[Errno 16] Device or resource busy: '' @ py_repr (path_str p)))
      else (case relocate wd f p of
              Inl e \<Rightarrow> lookup_exn e (path_str p)
            | Inr q \<Rightarrow> OSError (''[Errno 39] Directory not empty: '' @ py_repr (path_str p))))"

definition rmtree :: "loc \<Rightarrow> ppath \<Rightarrow> fs \<Rightarrow> (exn + unit) \<times> fs" where
  "rmtree wd p f =
     (case locate wd f p of
        Inl e \<Rightarrow> (Inl (lookup_exn e (path_str p)), f)
      | Inr q \<Rightarrow>
          (case f q of
             None \<Rightarrow> (Inl (FileNotFoundError (''[Errno 2] No such file or directory: '' @ py_repr (path_str p))), f)
           | Some (File c) \<Rightarrow> (Inl (NotADirectoryError (''[Errno 20] Not a directory: '' @ py_repr (path_str p))), f)
           | Some Dir \<Rightarrow>
               if names p = [] \<or> last (names p) = ''..''
               then (Inl (rmdir_error wd (remove_below q f) p), remove_below q f)
               else (Inr (), remove_tree q f)))"

text \<open>
  \<open>Path.resolve()\<close>: the path is made absolute from the working directory and \<open>..\<close>
  is collapsed name by name, as \<open>os.path.realpath\<close> does where no name is a link.
\<close>

fun collapse :: "loc \<Rightarrow> string list \<Rightarrow> loc" where
  "collapse acc [] = acc"
| "collapse acc (n # ns) =
     (if n = ''..'' then collapse (butlast acc) ns else collapse (acc @ [n]) ns)"

definition resolve :: "loc \<Rightarrow> ppath \<Rightarrow> ppath" where
  "resolve wd p = PPath ''/'' (collapse (if anchor p = [] then wd else []) (names p))"

section \<open>The environment and the state\<close>

text \<open>
  A finished \<open>subprocess.run\<close> gives a return code and the text of standard error; it
  may also raise (a timeout, a missing executable).
\<close>

datatype proc_result = Completed int string | Raised exn

text \<open>
  What the class reads from outside: the working directory, home and variable
  expansion (\<open>os.path.expanduser\<close>, \<open>os.path.expandvars\<close>), the clock already formatted
  with \<open>%Y%m%d_%H%M%S\<close>, the name \<open>tempfile.mkstemp\<close> would choose, and the two external
  programs.  A program is given its command line (the ingestion tool also the value
  of \<open>GITHUB_TOKEN\<close> that was added to its environment, if any) and the file system,
  and returns how it ended and the file system it left.
\<close>

record env =
  cwd :: loc
  expanduser :: "string \<Rightarrow> string"
  expandvars :: "string \<Rightarrow> string"
  now_stamp :: string
  mkstemp_name :: string
  gitingest_tool :: "string list \<Rightarrow> string option \<Rightarrow> fs \<Rightarrow> proc_result \<times> fs"
  git_tool :: "string list \<Rightarrow> fs \<Rightarrow> proc_result \<times> fs"

text \<open>
  The effects of a run that the properties speak about are recorded in order: files
  written, trees removed, and the invocations of the two programs with their outcome.
\<close>

datatype event =
    EvWrite string string
  | EvRmtree string
  | EvGitingest "string list" "string option" proc_result
  | EvGitClone "string list" proc_result

record world =
  files :: fs
  trace :: "event list"

definition log_event :: "event \<Rightarrow> world \<Rightarrow> world" where
  "log_event e w = w\<lparr>trace := trace w @ [e]\<rparr>"

text \<open>The instance: \<open>self.github_token\<close>, which is used when it is truthy.\<close>

record ingestor =
  github_token :: "string option"

definition token_set :: "ingestor \<Rightarrow> bool" where
  "token_set self = (case github_token self of None \<Rightarrow> False | Some t \<Rightarrow> t \<noteq> [])"

definition the_token :: "ingestor \<Rightarrow> string" where
  "the_token self = (case github_token self of None \<Rightarrow> [] | Some t \<Rightarrow> t)"

text \<open>
  The result dictionary.  A key that is absent is \<open>None\<close>; \<open>local_repo\<close> can be absent,
  present with the value \<open>None\<close>, or present with a path.
\<close>

record result =
  success :: bool
  error :: "string option"
  structured_text :: "string option"
  repo_input :: "string option"
  output_file :: "string option"
  local_repo :: "string option option"

definition failure :: "string \<Rightarrow> string option \<Rightarrow> result" where
  "failure msg inp =
     \<lparr>success = False, error = Some msg, structured_text = None, repo_input = inp,
      output_file = None, local_repo = None\<rparr>"

definition ingested :: "string \<Rightarrow> result" where
  "ingested inp =
     \<lparr>success = True, error = None, structured_text = Some ''File Successfully Ingested!'',
      repo_input = Some inp, output_file = None, local_repo = None\<rparr>"

section \<open>\<open>RepoIngestor\<close>\<close>

subsection \<open>\<open>clone_repo\<close>\<close>

definition clone_url :: "ingestor \<Rightarrow> string \<Rightarrow> string" where
  "clone_url self url =
     (if token_set self \<and> CHR ''@'' \<notin> set url
      then py_replace ''https://'' (''https://'' @ the_token self @ ''@'') url
      else url)"

definition run_git_clone :: "ingestor \<Rightarrow> env \<Rightarrow> string \<Rightarrow> ppath \<Rightarrow> world \<Rightarrow> (exn + string) \<times> world" where
  "run_git_clone self E url repo_path w =
     (let cmd = [''git'', ''clone'', ''--depth'', ''1'', clone_url self url, path_str repo_path];
          (res, f') = git_tool E cmd (files w);
          w' = log_event (EvGitClone cmd res) (w\<lparr>files := f'\<rparr>)
      in case res of
           Raised e \<Rightarrow> (Inl e, w')
         | Completed rc err \<Rightarrow>
             if rc \<noteq> 0 then (Inl (RuntimeError (''Git clone failed: '' @ py_strip err)), w')
             else (Inr (path_str repo_path), w'))"

definition clone_repo :: "ingestor \<Rightarrow> env \<Rightarrow> string \<Rightarrow> string \<Rightarrow> bool \<Rightarrow> world \<Rightarrow> (exn + string) \<times> world" where
  "clone_repo self E url target_dir fresh w =
     (case parse_github_url url of
        Inl e \<Rightarrow> (Inl e, w)
      | Inr (owner, repo) \<Rightarrow>
          (let repo_path = path_join (path_join (parse_path target_dir) owner) repo;
               (r1, w1) =
                 (if fresh \<and> path_exists (cwd E) (files w) repo_path
                  then (let (r, f') = rmtree (cwd E) repo_path (files w)
                        in (r, log_event (EvRmtree (path_str repo_path)) (w\<lparr>files := f'\<rparr>)))
                  else (Inr (), w))
           in case r1 of
                Inl e \<Rightarrow> (Inl e, w1)
              | Inr u \<Rightarrow>
                  (case mkdir_parents True (cwd E) (anchor (path_parent repo_path))
                          (names (path_parent repo_path)) (files w1) of
                     (Inl e, f2) \<Rightarrow> (Inl e, w1\<lparr>files := f2\<rparr>)
                   | (Inr u2, f2) \<Rightarrow> run_git_clone self E url repo_path (w1\<lparr>files := f2\<rparr>))))"

subsection \<open>\<open>run_gitingest\<close>\<close>

text \<open>
  The body of the \<open>try\<close> once the output file is known: the command line, the
  invocation, and the reading of the output file.  Every exception ends in the
  \<open>except\<close> clause, which turns it into a failure record.
\<close>

definition gitingest_cmd :: "ingestor \<Rightarrow> env \<Rightarrow> string \<Rightarrow> string \<Rightarrow> world \<Rightarrow> string list" where
  "gitingest_cmd self E repo_inp out_file w =
     [''gitingest'', repo_inp, ''--output'', out_file] @
     (if token_set self \<and> \<not> os_path_isdir (cwd E) (files w) repo_inp
      then [''--token'', the_token self] else [])"

definition gitingest_env_token :: "ingestor \<Rightarrow> env \<Rightarrow> string \<Rightarrow> world \<Rightarrow> string option" where
  "gitingest_env_token self E repo_inp w =
     (if token_set self \<and> \<not> os_path_isdir (cwd E) (files w) repo_inp
      then Some (the_token self) else None)"

definition invoke_gitingest :: "ingestor \<Rightarrow> env \<Rightarrow> string \<Rightarrow> string \<Rightarrow> world \<Rightarrow> result \<times> world" where
  "invoke_gitingest self E repo_inp out_file w =
     (let cmd = gitingest_cmd self E repo_inp out_file w;
          tok = gitingest_env_token self E repo_inp w;
          (res, f') = gitingest_tool E cmd tok (files w);
          w' = log_event (EvGitingest cmd tok res) (w\<lparr>files := f'\<rparr>)
      in case res of
           Raised e \<Rightarrow> (failure (str_exn e) (Some repo_inp), w')
         | Completed rc err \<Rightarrow>
             if rc \<noteq> 0 then (failure (py_strip err) (Some repo_inp), w')
             else (case read_text (cwd E) out_file (files w') of
                     Inl e \<Rightarrow> (failure (str_exn e) (Some repo_inp), w')
                   | Inr txt \<Rightarrow> (ingested repo_inp, w')))"

text \<open>
  With an empty \<open>output_file\<close> a temporary file is made first and removed in the
  \<open>finally\<close> clause if it still exists; a failure of that removal is ignored.
\<close>

definition run_gitingest :: "ingestor \<Rightarrow> env \<Rightarrow> string \<Rightarrow> string \<Rightarrow> world \<Rightarrow> result \<times> world" where
  "run_gitingest self E repo_inp out_file w =
     (if out_file = [] then
        (case write_text (cwd E) (parse_path (mkstemp_name E)) [] (files w) of
           Inl e \<Rightarrow> (failure (str_exn e) (Some repo_inp), w)
         | Inr f1 \<Rightarrow>
             (let (r, w2) = invoke_gitingest self E repo_inp (mkstemp_name E) (w\<lparr>files := f1\<rparr>)
              in if os_path_exists (cwd E) (files w2) (mkstemp_name E)
                 then (case os_remove (cwd E) (mkstemp_name E) (files w2) of
                         Inl e \<Rightarrow> (r, w2)
                       | Inr f3 \<Rightarrow> (r, w2\<lparr>files := f3\<rparr>))
                 else (r, w2)))
      else invoke_gitingest self E repo_inp out_file w)"

subsection \<open>The index of a repository\<close>

definition repo_index_exists :: "env \<Rightarrow> string \<Rightarrow> string \<Rightarrow> world \<Rightarrow> bool" where
  "repo_index_exists E repo indexes_dir w =
     (let repo_dir = path_join (parse_path indexes_dir) repo
      in path_exists (cwd E) (files w) (path_join repo_dir ''repo.index'')
       \<and> path_exists (cwd E) (files w) (path_join repo_dir ''chunks.json'')
       \<and> path_exists (cwd E) (files w) (path_join repo_dir ''graph.pkl''))"

definition delete_repo_index :: "env \<Rightarrow> string \<Rightarrow> string \<Rightarrow> world \<Rightarrow> (exn + bool) \<times> world" where
  "delete_repo_index E repo indexes_dir w =
     (let repo_dir = path_join (parse_path indexes_dir) repo
      in if path_exists (cwd E) (files w) repo_dir
         then (let (r, f') = rmtree (cwd E) repo_dir (files w);
                   w' = log_event (EvRmtree (path_str repo_dir)) (w\<lparr>files := f'\<rparr>)
               in case r of Inl e \<Rightarrow> (Inl e, w') | Inr u \<Rightarrow> (Inr True, w'))
         else (Inr False, w))"

subsection \<open>URL or local path\<close>

definition is_probable_git_url :: "string \<Rightarrow> bool" where
  "is_probable_git_url s0 =
     (let s = py_strip s0
      in (prefix ''http://'' s \<or> prefix ''https://'' s \<or> prefix ''git@'' s \<or> prefix ''ssh://'' s)
         \<or> py_contains ''github.com'' s)"

definition normalize_local_path :: "env \<Rightarrow> string \<Rightarrow> string" where
  "normalize_local_path E s =
     (let p = py_strip_char (CHR 0x27) (py_strip_char (CHR 0x22) (py_strip s));
          p = expanduser E p;
          p = expandvars E p
      in path_str (parse_path p))"

subsection \<open>\<open>ingest_repo\<close>\<close>

text \<open>
  The local branch (lines 185-199): owner, repository name and effective input, after
  the marker file has been written.
\<close>

definition prepare_local :: "env \<Rightarrow> string \<Rightarrow> world \<Rightarrow> (exn + result + (string \<times> string \<times> string)) \<times> world" where
  "prepare_local E raw_input w =
     (let local_path = normalize_local_path E raw_input
      in if \<not> os_path_isdir (cwd E) (files w) local_path
         then (Inr (Inl (failure (''Local path not found or not a directory: '' @ local_path) None)), w)
         else
           (let repo_path = resolve (cwd E) (parse_path local_path);
                owner = ''Local'';
                repo = path_name repo_path;
                local_repo_dir = path_join (path_join (parse_path ''my_repos'') owner) repo
            in case mkdir_parents True (cwd E) (anchor local_repo_dir) (names local_repo_dir) (files w) of
                 (Inl e, f1) \<Rightarrow> (Inl e, w\<lparr>files := f1\<rparr>)
               | (Inr u, f1) \<Rightarrow>
                   (let local_repo_file = path_join local_repo_dir ''repopath.txt''
                    in case write_text (cwd E) local_repo_file (path_str repo_path) f1 of
                         Inl e \<Rightarrow> (Inl e, w\<lparr>files := f1\<rparr>)
                       | Inr f2 \<Rightarrow>
                           (Inr (Inr (owner, repo, path_str repo_path)),
                            log_event (EvWrite (path_str local_repo_file) (path_str repo_path))
                              (w\<lparr>files := f2\<rparr>)))))"

text \<open>Lines 179-203: classification, then the local or the remote branch.\<close>

definition prepare_input :: "env \<Rightarrow> string \<Rightarrow> world \<Rightarrow> (exn + result + (string \<times> string \<times> string)) \<times> world" where
  "prepare_input E raw_input w =
     (if \<not> is_probable_git_url raw_input then prepare_local E raw_input w
      else (case parse_github_url raw_input of
              Inl e \<Rightarrow> (Inl e, w)
            | Inr (owner, repo) \<Rightarrow> (Inr (Inr (owner, repo, raw_input)), w)))"

text \<open>Lines 205-207.\<close>

definition invalidate_index :: "env \<Rightarrow> string \<Rightarrow> string \<Rightarrow> world \<Rightarrow> (exn + unit) \<times> world" where
  "invalidate_index E repo indexes_dir w =
     (if repo_index_exists E repo indexes_dir w
      then (case delete_repo_index E repo indexes_dir w of
              (Inl e, w') \<Rightarrow> (Inl e, w')
            | (Inr b, w') \<Rightarrow> (Inr (), w'))
      else (Inr (), w))"

text \<open>Lines 209-229: the ingestion tool, then the clone for a URL.\<close>

definition ingest_and_clone :: "ingestor \<Rightarrow> env \<Rightarrow> string \<Rightarrow> bool \<Rightarrow> bool \<Rightarrow> string \<Rightarrow> string \<Rightarrow> string \<Rightarrow> world \<Rightarrow> result \<times> world" where
  "ingest_and_clone self E output_dir clone is_url owner repo effective_input w =
     (let timestamp = now_stamp E;
          out_file = output_dir @ ''/'' @ owner @ ''_'' @ repo @ ''_'' @ timestamp @ ''.txt'';
          (res, w1) = run_gitingest self E effective_input out_file w
      in if \<not> success res then (res, w1)
         else
           (let res = res\<lparr>output_file := Some out_file\<rparr>
            in if clone \<and> is_url \<and> \<not> os_path_isdir (cwd E) (files w1) effective_input
               then (case clone_repo self E effective_input ''my_repos'' True w1 of
                       (Inr local_path, w2) \<Rightarrow> (res\<lparr>local_repo := Some (Some local_path)\<rparr>, w2)
                     | (Inl e, w2) \<Rightarrow> (res\<lparr>local_repo := Some None\<rparr>, w2))
               else (res, w1)))"

definition ingest_repo :: "ingestor \<Rightarrow> env \<Rightarrow> string \<Rightarrow> string \<Rightarrow> bool \<Rightarrow> string \<Rightarrow> world \<Rightarrow> (exn + result) \<times> world" where
  "ingest_repo self E repo_inp output_dir clone indexes_dir w =
     (case mkdir_once True (cwd E) (parse_path output_dir) (files w) of
        Inl e \<Rightarrow> (Inl e, w)
      | Inr f0 \<Rightarrow>
          (let w0 = w\<lparr>files := f0\<rparr>
           in if repo_inp = [] \<or> py_strip repo_inp = []
              then (Inr (failure ''No repository URL or local path provided.'' None), w0)
              else
                (let raw_input = py_strip repo_inp;
                     is_url = is_probable_git_url raw_input
                 in case prepare_input E raw_input w0 of
                      (Inl e, w1) \<Rightarrow> (Inl e, w1)
                    | (Inr (Inl res), w1) \<Rightarrow> (Inr res, w1)
                    | (Inr (Inr (owner, repo, effective_input)), w1) \<Rightarrow>
                        (case invalidate_index E repo indexes_dir w1 of
                           (Inl e, w2) \<Rightarrow> (Inl e, w2)
                         | (Inr u, w2) \<Rightarrow>
                             (let (res, w3) = ingest_and_clone self E output_dir clone is_url
                                                owner repo effective_input w2
                              in (Inr res, w3))))))"

text \<open>The default arguments of \<open>ingest_repo\<close>.\<close>

definition default_output_dir :: string where
  "default_output_dir = ''gitingest_outputs''"

definition default_indexes_dir :: string where
  "default_indexes_dir = ''indexes''"


section \<open>Vocabulary of the properties\<close>

text \<open>A program ended well when it completed with return code 0.\<close>

fun proc_ok :: "proc_result \<Rightarrow> bool" where
  "proc_ok (Completed rc err) = (rc = 0)"
| "proc_ok (Raised e) = False"

text \<open>A name of a directory entry: not empty, not a dot name, without a slash.\<close>

definition valid_name :: "string \<Rightarrow> bool" where
  "valid_name n = (n \<noteq> [] \<and> n \<noteq> ''.'' \<and> n \<noteq> ''..'' \<and> CHR ''/'' \<notin> set n)"

text \<open>
  One file system grows into another when every entry is still there and every
  directory is still a directory.
\<close>

definition fs_grows :: "fs \<Rightarrow> fs \<Rightarrow> bool" where
  "fs_grows f f' = (\<forall>q. (f q = Some Dir \<longrightarrow> f' q = Some Dir) \<and> (f q \<noteq> None \<longrightarrow> f' q \<noteq> None))"

text \<open>The marker file of a local repository, as \<open>ingest_repo\<close> builds its path.\<close>

definition marker_file :: "string \<Rightarrow> ppath" where
  "marker_file repo =
     path_join (path_join (path_join (parse_path ''my_repos'') ''Local'') repo) ''repopath.txt''"

text \<open>
  The repository name that \<open>ingest_repo\<close> derives from a stripped input (lines 190 and
  202), if it derives one.
\<close>

definition repo_name_of :: "env \<Rightarrow> string \<Rightarrow> string option" where
  "repo_name_of E raw =
     (if is_probable_git_url raw
      then (case parse_github_url raw of
              Inl e \<Rightarrow> None
            | Inr (owner, repo) \<Rightarrow> Some repo)
      else Some (path_name (resolve (cwd E) (parse_path (normalize_local_path E raw)))))"

text \<open>The index directory of a repository, \<open>Path(indexes_dir) / repo\<close>.\<close>

definition index_dir :: "string \<Rightarrow> string \<Rightarrow> ppath" where
  "index_dir indexes_dir repo = path_join (parse_path indexes_dir) repo"

text \<open>
  Neither segment of a parsed reference is the parent directory; the two programs
  leave everything at and below a location as it is; a file system is unchanged at and
  below a location; a file system is changed only below some locations.
\<close>

definition no_parent_segments :: "string \<Rightarrow> bool" where
  "no_parent_segments raw =
     (case parse_github_url raw of
        Inl e \<Rightarrow> True
      | Inr (owner, repo) \<Rightarrow> owner \<noteq> ''..'' \<and> repo \<noteq> ''..'')"

definition unchanged_below :: "loc \<Rightarrow> fs \<Rightarrow> fs \<Rightarrow> bool" where
  "unchanged_below d f f' = (\<forall>x. prefix d x \<longrightarrow> f' x = f x)"

definition tools_keep :: "env \<Rightarrow> loc \<Rightarrow> bool" where
  "tools_keep E d =
     ((\<forall>cmd tok f. unchanged_below d f (snd (gitingest_tool E cmd tok f)))
      \<and> (\<forall>cmd f. unchanged_below d f (snd (git_tool E cmd f))))"

definition changed_only_below :: "loc set \<Rightarrow> fs \<Rightarrow> fs \<Rightarrow> bool" where
  "changed_only_below D f f' = (\<forall>x. f' x \<noteq> f x \<longrightarrow> (\<exists>d\<in>D. prefix d x))"


section \<open>A small environment\<close>

text \<open>
  Stand-ins for the two programs: an ingestion tool that writes its output file and
  exits with 0, one that exits with 1 and a message on standard error, a clone that
  exits with 0 and one that exits with 128.  The working directory is \<open>/w\<close>; it holds
  a project directory \<open>proj\<close> and whatever else the examples need.
\<close>

definition stub_gitingest_ok :: "loc \<Rightarrow> string list \<Rightarrow> string option \<Rightarrow> fs \<Rightarrow> proc_result \<times> fs" where
  "stub_gitingest_ok wd cmd tok f =
     (case locate wd f (parse_path (cmd ! 3)) of
        Inr q \<Rightarrow> (Completed 0 [], f(q \<mapsto> File ''Directory structure''))
      | Inl e \<Rightarrow> (Completed 1 ''cannot write the output file'', f))"

text \<open>An ingestion tool that writes its output file unless that lies at or below \<open>d\<close>.\<close>

definition stub_gitingest_guarded ::
  "loc \<Rightarrow> loc \<Rightarrow> string list \<Rightarrow> string option \<Rightarrow> fs \<Rightarrow> proc_result \<times> fs" where
  "stub_gitingest_guarded d wd cmd tok f =
     (case locate wd f (parse_path (cmd ! 3)) of
        Inr q \<Rightarrow> if prefix d q then (Completed 1 ''refused'', f)
                 else (Completed 0 [], f(q \<mapsto> File ''Directory structure''))
      | Inl e \<Rightarrow> (Completed 1 ''cannot write the output file'', f))"

definition stub_gitingest_fail :: "string list \<Rightarrow> string option \<Rightarrow> fs \<Rightarrow> proc_result \<times> fs" where
  "stub_gitingest_fail cmd tok f = (Completed 1 (''auth failed'' @ [CHR 0x0A]), f)"

definition stub_git_ok :: "string list \<Rightarrow> fs \<Rightarrow> proc_result \<times> fs" where
  "stub_git_ok cmd f = (Completed 0 [], f)"

definition stub_git_fail :: "string list \<Rightarrow> fs \<Rightarrow> proc_result \<times> fs" where
  "stub_git_fail cmd f = (Completed 128 ''fatal: repository not found'', f)"

definition demo_env ::
  "(string list \<Rightarrow> string option \<Rightarrow> fs \<Rightarrow> proc_result \<times> fs) \<Rightarrow>
   (string list \<Rightarrow> fs \<Rightarrow> proc_result \<times> fs) \<Rightarrow> env" where
  "demo_env gi g =
     \<lparr>cwd = [''w''], expanduser = (\<lambda>s. s), expandvars = (\<lambda>s. s),
      now_stamp = ''20240101_000000'', mkstemp_name = ''/tmp/gitingest_0.txt'',
      gitingest_tool = gi, git_tool = g\<rparr>"

definition ok_env :: env where
  "ok_env = demo_env (stub_gitingest_ok [''w'']) stub_git_ok"

definition guarded_env :: env where
  "guarded_env = demo_env (stub_gitingest_guarded [''w'', ''indexes''] [''w'']) stub_git_ok"

definition demo_self :: ingestor where
  "demo_self = \<lparr>github_token = None\<rparr>"

definition demo_files :: fs where
  "demo_files = [[] \<mapsto> Dir, [''w''] \<mapsto> Dir, [''w'', ''proj''] \<mapsto> Dir]"

definition demo_world :: world where
  "demo_world = \<lparr>files = demo_files, trace = []\<rparr>"

text \<open>A complete index for \<open>r\<close>, and a partial index for a repository named \<open>indexes\<close>.\<close>

definition indexed_files :: fs where
  "indexed_files =
     demo_files([''w'', ''indexes''] \<mapsto> Dir, [''w'', ''indexes'', ''r''] \<mapsto> Dir,
       [''w'', ''indexes'', ''r'', ''repo.index''] \<mapsto> File ''i'',
       [''w'', ''indexes'', ''r'', ''chunks.json''] \<mapsto> File ''c'',
       [''w'', ''indexes'', ''r'', ''graph.pkl''] \<mapsto> File ''g'')"

definition indexed_world :: world where
  "indexed_world = \<lparr>files = indexed_files, trace = []\<rparr>"

definition partial_files :: fs where
  "partial_files =
     demo_files([''w'', ''my_repos''] \<mapsto> Dir, [''w'', ''indexes''] \<mapsto> Dir,
       [''w'', ''indexes'', ''indexes''] \<mapsto> Dir,
       [''w'', ''indexes'', ''indexes'', ''chunks.json''] \<mapsto> File ''c'')"

definition partial_world :: world where
  "partial_world = \<lparr>files = partial_files, trace = []\<rparr>"

text \<open>
  The complete index for \<open>r\<close> in a working directory in which \<open>gitingest_outputs\<close> is
  a regular file.
\<close>

definition occupied_files :: fs where
  "occupied_files = indexed_files([''w'', ''gitingest_outputs''] \<mapsto> File ''x'')"

definition occupied_world :: world where
  "occupied_world = \<lparr>files = occupied_files, trace = []\<rparr>"

text \<open>A working directory in which \<open>my_repos\<close> is a regular file.\<close>

definition blocked_files :: fs where
  "blocked_files = demo_files([''w'', ''my_repos''] \<mapsto> File ''x'')"

definition blocked_world :: world where
  "blocked_world = \<lparr>files = blocked_files, trace = []\<rparr>"

text \<open>The rules that evaluate the model on a concrete input.\<close>

lemmas string_defs = py_strip_def strip_chars_def py_isspace_def py_strip_char_def
  py_contains_def sublist_code py_repr_def repr_char_def py_isprintable_def hex_digit_def

lemmas path_defs = parse_path_def parse_anchor_def path_str_def path_join_def path_name_def
  path_parent_def resolve_def

lemmas fs_defs = locate_def lookup_exn_def path_exists_def path_is_dir_def os_path_isdir_def
  os_path_exists_def os_mkdir_def mkdir_once_def write_text_def read_text_def os_remove_def
  remove_below_def remove_tree_def rmtree_def relocate_def rmdir_error_def mkdir_parents.simps

lemmas parse_defs = parse_github_url_def match_here_def tail_ok_def at_end_def

lemmas run_defs = ingest_repo_def prepare_input_def prepare_local_def invalidate_index_def
  ingest_and_clone_def run_gitingest_def invoke_gitingest_def gitingest_cmd_def
  gitingest_env_token_def clone_repo_def run_git_clone_def clone_url_def repo_index_exists_def
  delete_repo_index_def is_probable_git_url_def normalize_local_path_def failure_def
  ingested_def log_event_def token_set_def the_token_def

lemmas demo_defs = demo_env_def ok_env_def demo_self_def demo_files_def demo_world_def
  indexed_files_def indexed_world_def partial_files_def partial_world_def
  blocked_files_def blocked_world_def occupied_files_def occupied_world_def
  stub_gitingest_ok_def stub_gitingest_fail_def stub_git_ok_def stub_git_fail_def
  stub_gitingest_guarded_def guarded_env_def
  default_output_dir_def default_indexes_dir_def

lemmas eval_defs = run_defs fs_defs path_defs string_defs parse_defs demo_defs Let_def


section \<open>Properties of \<open>parse_github_url\<close>\<close>

lemma strip_prefix_Some: "strip_prefix p t = Some r \<longleftrightarrow> t = p @ r"
  by (induction p t rule: strip_prefix.induct) auto

lemma strip_prefix_None: "strip_prefix p t = None \<longleftrightarrow> \<not> prefix p t"
  by (induction p t rule: strip_prefix.induct) auto

lemma tail_ok_iff:
  "tail_ok t \<longleftrightarrow> t = [] \<or> t = [CHR 0x0A] \<or> t = ''.git'' \<or> t = ''.git'' @ [CHR 0x0A]"
  by (auto simp: tail_ok_def at_end_def strip_prefix_Some split: option.splits)

text \<open>
  The lazy group stops at the first non-empty prefix after which the tail of the
  pattern matches.
\<close>

lemma repo_lazy_shortest:
  assumes "p \<noteq> []" "CHR ''/'' \<notin> set p" "tail_ok t"
    and "\<And>a b. p = a @ b \<Longrightarrow> a \<noteq> [] \<Longrightarrow> b \<noteq> [] \<Longrightarrow> \<not> tail_ok (b @ t)"
  shows "repo_lazy acc (p @ t) = Some (acc @ p)"
  using assms
proof (induction p arbitrary: acc)
  case Nil
  then show ?case by simp
next
  case (Cons c p)
  show ?case
  proof (cases "p = []")
    case True
    with Cons.prems show ?thesis by simp
  next
    case False
    have nt: "\<not> tail_ok (p @ t)"
      using Cons.prems(4)[of "[c]" p] False by simp
    have "repo_lazy (acc @ [c]) (p @ t) = Some ((acc @ [c]) @ p)"
    proof (rule Cons.IH)
      show "p \<noteq> []" by (rule False)
      show "CHR ''/'' \<notin> set p" using Cons.prems(2) by simp
      show "tail_ok t" by (rule Cons.prems(3))
      fix a b assume "p = a @ b" "a \<noteq> []" "b \<noteq> []"
      then show "\<not> tail_ok (b @ t)" using Cons.prems(4)[of "c # a" b] by simp
    qed
    with nt Cons.prems(2) show ?thesis by auto
  qed
qed

lemma match_here_github:
  assumes "owner \<noteq> []" "CHR ''/'' \<notin> set owner"
  shows "match_here (''github.com/'' @ owner @ CHR ''/'' # r) =
           map_option (\<lambda>repo. (owner, repo)) (repo_lazy [] r)"
proof -
  have ns: "\<And>x. x \<in> set owner \<Longrightarrow> x \<noteq> CHR ''/''"
    using assms(2) by auto
  have tw: "takeWhile (\<lambda>c. c \<noteq> CHR ''/'') (owner @ CHR ''/'' # r) = owner"
    using ns by simp
  have dw: "dropWhile (\<lambda>c. c \<noteq> CHR ''/'') (owner @ CHR ''/'' # r) = CHR ''/'' # r"
    using ns by simp
  show ?thesis using assms(1) by (simp add: match_here_def tw dw)
qed

lemma re_search_https:
  assumes "owner \<noteq> []" "CHR ''/'' \<notin> set owner"
  shows "re_search (''https://github.com/'' @ owner @ CHR ''/'' # r) =
     (case repo_lazy [] r of
        Some repo \<Rightarrow> Some (owner, repo)
      | None \<Rightarrow> re_search (''ithub.com/'' @ owner @ CHR ''/'' # r))"
  using match_here_github[OF assms, of r]
  by (simp add: match_here_def split: option.splits)

lemma tail_ok_before_git:
  assumes "tail_ok (b @ ''.git'')"
  shows "b = []"
proof (rule ccontr)
  assume "b \<noteq> []"
  then have len: "5 \<le> length (b @ ''.git'')" by (cases b) auto
  from assms have "b @ ''.git'' = ''.git'' @ [CHR 0x0A]"
    using len by (auto simp: tail_ok_iff)
  then have "last (b @ ''.git'') = CHR 0x0A" by simp
  then show False by simp
qed

text \<open>
  C8.  For a string \<open>https://github.com/<owner>/<repo>.git\<close> with non-empty, slash-free
  segments the owner and the repository are returned as they are.  For a string
  \<open>https://github.com/<owner>/<repo>\<close> whose repository segment neither ends in a line
  feed nor is a longer string that ends in \<open>.git\<close>, the owner and the repository are
  returned as they are; the segment \<open>.git\<close> itself is such a segment and is returned
  whole.
\<close>

theorem parse_github_url_https:
  assumes "owner \<noteq> []" "CHR ''/'' \<notin> set owner" "repo \<noteq> []" "CHR ''/'' \<notin> set repo"
  shows "parse_github_url (''https://github.com/'' @ owner @ ''/'' @ repo @ ''.git'') = Inr (owner, repo)
     \<and> (last repo \<noteq> CHR 0x0A \<longrightarrow> \<not> (suffix ''.git'' repo \<and> repo \<noteq> ''.git'') \<longrightarrow>
          parse_github_url (''https://github.com/'' @ owner @ ''/'' @ repo) = Inr (owner, repo))"
proof
  have "repo_lazy [] (repo @ ''.git'') = Some ([] @ repo)"
  proof (rule repo_lazy_shortest)
    show "repo \<noteq> []" by fact
    show "CHR ''/'' \<notin> set repo" by fact
    show "tail_ok ''.git''" by (simp add: tail_ok_iff)
    fix a b assume "repo = a @ b" "a \<noteq> []" "b \<noteq> []"
    then show "\<not> tail_ok (b @ ''.git'')" using tail_ok_before_git by blast
  qed
  then show "parse_github_url (''https://github.com/'' @ owner @ ''/'' @ repo @ ''.git'') = Inr (owner, repo)"
    using re_search_https[OF assms(1,2), of "repo @ ''.git''"] by (simp add: parse_github_url_def)
next
  show "last repo \<noteq> CHR 0x0A \<longrightarrow> \<not> (suffix ''.git'' repo \<and> repo \<noteq> ''.git'') \<longrightarrow>
          parse_github_url (''https://github.com/'' @ owner @ ''/'' @ repo) = Inr (owner, repo)"
  proof (intro impI)
    assume nl: "last repo \<noteq> CHR 0x0A"
      and ns: "\<not> (suffix ''.git'' repo \<and> repo \<noteq> ''.git'')"
    have "repo_lazy [] (repo @ []) = Some ([] @ repo)"
    proof (rule repo_lazy_shortest)
      show "repo \<noteq> []" by fact
      show "CHR ''/'' \<notin> set repo" by fact
      show "tail_ok []" by (simp add: tail_ok_iff)
      fix a b assume ab: "repo = a @ b" "a \<noteq> []" "b \<noteq> []"
      have lb: "last b \<noteq> CHR 0x0A" using nl ab by simp
      have "b \<noteq> ''.git''"
      proof
        assume b: "b = ''.git''"
        with ab have "suffix ''.git'' repo" by (simp add: suffix_def)
        moreover from ab b have "repo \<noteq> ''.git''" by auto
        ultimately show False using ns by simp
      qed
      with lb ab show "\<not> tail_ok (b @ [])" by (auto simp: tail_ok_iff)
    qed
    then show "parse_github_url (''https://github.com/'' @ owner @ ''/'' @ repo) = Inr (owner, repo)"
      using re_search_https[OF assms(1,2), of "repo"] by (simp add: parse_github_url_def)
  qed
qed

theorem parse_github_url_https_witness:
  "parse_github_url ''https://github.com/octo/demo.git'' = Inr (''octo'', ''demo'')
   \<and> parse_github_url ''https://github.com/octo/demo'' = Inr (''octo'', ''demo'')"
  using parse_github_url_https [of "''octo''" "''demo''"] by (simp add: suffix_to_prefix)

text \<open>
  A repository segment that ends in a line feed is not returned as it is: \<open>$\<close> also
  matches before a final line feed, and the lazy group stops there.
\<close>

theorem parse_github_url_newline_counterexample:
  "parse_github_url (''https://github.com/'' @ ''o'' @ ''/'' @ [CHR ''r'', CHR 0x0A]) = Inr (''o'', ''r'')
   \<and> ''r'' \<noteq> [CHR ''r'', CHR 0x0A]"
  by (simp add: parse_github_url_def match_here_def tail_ok_def at_end_def)

lemma py_strip_Nil [simp]: "py_strip [] = []"
  by (simp add: py_strip_def strip_chars_def)

lemma ingest_repo_elim:
  assumes "ingest_repo self E inp od clone idir w = (r, w')"
  obtains
    (mkdir_fail) e where "mkdir_once True (cwd E) (parse_path od) (files w) = Inl e"
      "r = Inl e" "w' = w"
  | (empty) f0 where "mkdir_once True (cwd E) (parse_path od) (files w) = Inr f0"
      "py_strip inp = []" "r = Inr (failure ''No repository URL or local path provided.'' None)"
      "w' = w\<lparr>files := f0\<rparr>"
  | (prep_raise) f0 e where "mkdir_once True (cwd E) (parse_path od) (files w) = Inr f0"
      "py_strip inp \<noteq> []"
      "prepare_input E (py_strip inp) (w\<lparr>files := f0\<rparr>) = (Inl e, w')" "r = Inl e"
  | (prep_fail) f0 res where "mkdir_once True (cwd E) (parse_path od) (files w) = Inr f0"
      "py_strip inp \<noteq> []"
      "prepare_input E (py_strip inp) (w\<lparr>files := f0\<rparr>) = (Inr (Inl res), w')" "r = Inr res"
  | (inval_raise) f0 owner repo eff w1 e where
      "mkdir_once True (cwd E) (parse_path od) (files w) = Inr f0"
      "py_strip inp \<noteq> []"
      "prepare_input E (py_strip inp) (w\<lparr>files := f0\<rparr>) = (Inr (Inr (owner, repo, eff)), w1)"
      "invalidate_index E repo idir w1 = (Inl e, w')" "r = Inl e"
  | (run) f0 owner repo eff w1 w2 res where
      "mkdir_once True (cwd E) (parse_path od) (files w) = Inr f0"
      "py_strip inp \<noteq> []"
      "prepare_input E (py_strip inp) (w\<lparr>files := f0\<rparr>) = (Inr (Inr (owner, repo, eff)), w1)"
      "invalidate_index E repo idir w1 = (Inr (), w2)"
      "ingest_and_clone self E od clone (is_probable_git_url (py_strip inp)) owner repo eff w2 = (res, w')"
      "r = Inr res"
proof (cases "mkdir_once True (cwd E) (parse_path od) (files w)")
  case (Inl e)
  from assms Inl have "r = Inl e \<and> w' = w"
    unfolding ingest_repo_def by (simp only: sum.case prod.inject)
  then show ?thesis using mkdir_fail[OF Inl] by blast
next
  case (Inr f0)
  note mk = this
  show ?thesis
  proof (cases "py_strip inp = []")
    case True
    then have c: "(inp = [] \<or> py_strip inp = []) = True" by simp
    from assms have "r = Inr (failure ''No repository URL or local path provided.'' None) \<and> w' = w\<lparr>files := f0\<rparr>"
      unfolding ingest_repo_def mk c by (simp only: sum.case Let_def if_True prod.inject)
    then show ?thesis using empty[OF mk True] by blast
  next
    case False
    then have c: "(inp = [] \<or> py_strip inp = []) = False" by auto
    obtain x w1 where p: "prepare_input E (py_strip inp) (w\<lparr>files := f0\<rparr>) = (x, w1)"
      by (cases "prepare_input E (py_strip inp) (w\<lparr>files := f0\<rparr>)")
    from assms have eq: "(case x of
          Inl e \<Rightarrow> (Inl e, w1)
        | Inr (Inl res) \<Rightarrow> (Inr res, w1)
        | Inr (Inr (owner, repo, effective_input)) \<Rightarrow>
            (case invalidate_index E repo idir w1 of
               (Inl e, w2) \<Rightarrow> (Inl e, w2)
             | (Inr u, w2) \<Rightarrow>
                 (let (res, w3) = ingest_and_clone self E od clone (is_probable_git_url (py_strip inp))
                                    owner repo effective_input w2
                  in (Inr res, w3)))) = (r, w')"
      unfolding ingest_repo_def mk c by (simp only: sum.case Let_def if_False p prod.case)
    show ?thesis
    proof (cases x)
      case (Inl e)
      with eq have "r = Inl e \<and> w' = w1" by simp
      with p Inl show ?thesis using prep_raise[OF mk False] by blast
    next
      case (Inr y)
      note xy = this
      show ?thesis
      proof (cases y)
        case (Inl res)
        with eq xy have "r = Inr res \<and> w' = w1" by simp
        with p xy Inl show ?thesis using prep_fail[OF mk False] by blast
      next
        case (Inr t)
        obtain owner repo eff where t: "t = (owner, repo, eff)" by (cases t)
        obtain u w2 where iv: "invalidate_index E repo idir w1 = (u, w2)"
          by (cases "invalidate_index E repo idir w1")
        have pp: "prepare_input E (py_strip inp) (w\<lparr>files := f0\<rparr>) = (Inr (Inr (owner, repo, eff)), w1)"
          using p xy Inr t by simp
        show ?thesis
        proof (cases u)
          case (Inl e)
          with eq xy Inr t iv have "r = Inl e \<and> w' = w2" by simp
          with iv Inl show ?thesis using inval_raise[OF mk False pp] by blast
        next
          case (Inr un)
          obtain res w3 where ic: "ingest_and_clone self E od clone (is_probable_git_url (py_strip inp)) owner repo eff w2 = (res, w3)"
            by (cases "ingest_and_clone self E od clone (is_probable_git_url (py_strip inp)) owner repo eff w2")
          from Inr iv have iv': "invalidate_index E repo idir w1 = (Inr (), w2)" by simp
          from eq xy \<open>y = Inr t\<close> t iv' ic have "r = Inr res \<and> w' = w3" by simp
          with ic show ?thesis using run[OF mk False pp iv'] by blast
        qed
      qed
    qed
  qed
qed

lemma ingest_and_clone_elim:
  assumes "ingest_and_clone self E od clone is_url owner repo eff w = (res, w')"
    and out: "out = od @ ''/'' @ owner @ ''_'' @ repo @ ''_'' @ now_stamp E @ ''.txt''"
  obtains
    (tool_fail) "invoke_gitingest self E eff out w = (res, w')" "\<not> success res"
  | (no_clone) r1 where "invoke_gitingest self E eff out w = (r1, w')" "success r1"
      "\<not> (clone \<and> is_url \<and> \<not> os_path_isdir (cwd E) (files w') eff)"
      "res = r1\<lparr>output_file := Some out\<rparr>"
  | (clone_ok) r1 w1 p where "invoke_gitingest self E eff out w = (r1, w1)" "success r1"
      "clone" "is_url" "\<not> os_path_isdir (cwd E) (files w1) eff"
      "clone_repo self E eff ''my_repos'' True w1 = (Inr p, w')"
      "res = r1\<lparr>output_file := Some out, local_repo := Some (Some p)\<rparr>"
  | (clone_fail) r1 w1 e where "invoke_gitingest self E eff out w = (r1, w1)" "success r1"
      "clone" "is_url" "\<not> os_path_isdir (cwd E) (files w1) eff"
      "clone_repo self E eff ''my_repos'' True w1 = (Inl e, w')"
      "res = r1\<lparr>output_file := Some out, local_repo := Some None\<rparr>"
proof -
  have ne: "out \<noteq> []" using out by simp
  obtain r1 w1 where iv: "invoke_gitingest self E eff out w = (r1, w1)"
    by (cases "invoke_gitingest self E eff out w")
  have rg: "run_gitingest self E eff out w = (r1, w1)"
    using ne iv by (simp only: run_gitingest_def if_False)
  obtain c w2 where cl: "clone_repo self E eff ''my_repos'' True w1 = (c, w2)"
    by (cases "clone_repo self E eff ''my_repos'' True w1")
  from assms(1) have eq:
    "(if \<not> success r1 then (r1, w1)
      else if clone \<and> is_url \<and> \<not> os_path_isdir (cwd E) (files w1) eff
           then (case c of
                   Inr local_path \<Rightarrow> (r1\<lparr>output_file := Some out, local_repo := Some (Some local_path)\<rparr>, w2)
                 | Inl e \<Rightarrow> (r1\<lparr>output_file := Some out, local_repo := Some None\<rparr>, w2))
           else (r1\<lparr>output_file := Some out\<rparr>, w1)) = (res, w')"
    unfolding ingest_and_clone_def out[symmetric] Let_def rg prod.case cl
    by (cases c) (simp_all only: sum.case prod.case)
  show ?thesis
  proof (cases "success r1")
    case False
    with eq have "res = r1 \<and> w' = w1" by simp
    with iv False show ?thesis using tool_fail by blast
  next
    case True
    note s = this
    show ?thesis
    proof (cases "clone \<and> is_url \<and> \<not> os_path_isdir (cwd E) (files w1) eff")
      case False
      with eq s have "res = r1\<lparr>output_file := Some out\<rparr> \<and> w' = w1" by auto
      with iv s False show ?thesis using no_clone[of r1] by blast
    next
      case True
      show ?thesis
      proof (cases c)
        case (Inl e)
        with eq s True have "res = r1\<lparr>output_file := Some out, local_repo := Some None\<rparr> \<and> w' = w2"
          by simp
        with iv s True cl Inl show ?thesis using clone_fail[of r1 w1 e] by blast
      next
        case (Inr p)
        with eq s True have "res = r1\<lparr>output_file := Some out, local_repo := Some (Some p)\<rparr> \<and> w' = w2"
          by simp
        with iv s True cl Inr show ?thesis using clone_ok[of r1 w1 p] by blast
      qed
    qed
  qed
qed

text \<open>One invocation of the ingestion tool: one event, and the record it gives.\<close>

lemma invoke_gitingest_result:
  assumes "invoke_gitingest self E eff out w = (res, w')"
  shows "\<exists>cmd tok oc. trace w' = trace w @ [EvGitingest cmd tok oc]
           \<and> cmd = gitingest_cmd self E eff out w
           \<and> repo_input res = Some eff
           \<and> local_repo res = None \<and> output_file res = None
           \<and> (success res \<longrightarrow> proc_ok oc \<and> res = ingested eff)
           \<and> (\<forall>rc err. oc = Completed rc err \<longrightarrow> rc \<noteq> 0 \<longrightarrow> res = failure (py_strip err) (Some eff))"
proof -
  obtain oc f' where t: "gitingest_tool E (gitingest_cmd self E eff out w)
      (gitingest_env_token self E eff w) (files w) = (oc, f')"
    by (cases "gitingest_tool E (gitingest_cmd self E eff out w) (gitingest_env_token self E eff w) (files w)")
  show ?thesis
  proof (cases oc)
    case (Raised e)
    with assms t show ?thesis
      by (auto simp add: invoke_gitingest_def Let_def log_event_def failure_def)
  next
    case (Completed rc err)
    with assms t show ?thesis
      by (cases "read_text (cwd E) out f'")
         (auto simp add: invoke_gitingest_def Let_def log_event_def failure_def ingested_def
               split: if_splits)
  qed
qed

lemma gitingest_cmd_input: "gitingest_cmd self E eff out w ! 1 = eff"
  by (simp add: gitingest_cmd_def)

lemma run_git_clone_result:
  assumes "run_git_clone self E url rp w = (c, w')"
  shows "\<exists>cmd oc. trace w' = trace w @ [EvGitClone cmd oc]
           \<and> (if proc_ok oc then c = Inr (path_str rp) else \<exists>e. c = Inl e)"
proof -
  let ?cmd = "[''git'', ''clone'', ''--depth'', ''1'', clone_url self url, path_str rp]"
  obtain oc f' where t: "git_tool E ?cmd (files w) = (oc, f')"
    by (cases "git_tool E ?cmd (files w)")
  have tr: "trace w' = trace w @ [EvGitClone ?cmd oc]"
    using assms t
    by (cases oc) (auto simp add: run_git_clone_def Let_def log_event_def split: if_splits)
  have "if proc_ok oc then c = Inr (path_str rp) else \<exists>e. c = Inl e"
    using assms t
    by (cases oc) (auto simp add: run_git_clone_def Let_def log_event_def split: if_splits)
  with tr show ?thesis by blast
qed

lemma clone_repo_result:
  assumes "clone_repo self E url tdir fresh w = (c, w')"
    and "parse_github_url url = Inr (owner, repo)"
    and "rp = path_join (path_join (parse_path tdir) owner) repo"
  shows "\<exists>pre post. trace w' = trace w @ pre @ post
           \<and> (pre = [] \<or> pre = [EvRmtree (path_str rp)])
           \<and> ((post = [] \<and> (\<exists>e. c = Inl e))
              \<or> (\<exists>cmd oc. post = [EvGitClone cmd oc]
                   \<and> (if proc_ok oc then c = Inr (path_str rp) else \<exists>e. c = Inl e)))"
proof -
  define r1w1 where "r1w1 =
     (if fresh \<and> path_exists (cwd E) (files w) rp
      then (let (r, f') = rmtree (cwd E) rp (files w)
            in (r, log_event (EvRmtree (path_str rp)) (w\<lparr>files := f'\<rparr>)))
      else (Inr (), w))"
  obtain r1 w1 where rw: "r1w1 = (r1, w1)" by (cases r1w1)
  have tr1: "trace w1 = trace w @ [] \<or> trace w1 = trace w @ [EvRmtree (path_str rp)]"
    using rw unfolding r1w1_def
    by (auto simp add: Let_def log_event_def split: if_splits prod.splits)
  have eq: "(case r1 of
                Inl e \<Rightarrow> (Inl e, w1)
              | Inr u \<Rightarrow>
                  (case mkdir_parents True (cwd E) (anchor (path_parent rp))
                          (names (path_parent rp)) (files w1) of
                     (Inl e, f2) \<Rightarrow> (Inl e, w1\<lparr>files := f2\<rparr>)
                   | (Inr u2, f2) \<Rightarrow> run_git_clone self E url rp (w1\<lparr>files := f2\<rparr>))) = (c, w')"
    using assms(1) rw unfolding clone_repo_def assms(2) sum.case prod.case Let_def assms(3)[symmetric] r1w1_def
    by simp
  show ?thesis
  proof (cases r1)
    case (Inl e)
    with eq have ce: "c = Inl e" "w' = w1" by simp_all
    from tr1 show ?thesis
    proof
      assume "trace w1 = trace w @ []"
      then have "trace w' = trace w @ [] @ []" using ce by simp
      with ce show ?thesis by blast
    next
      assume "trace w1 = trace w @ [EvRmtree (path_str rp)]"
      then have "trace w' = trace w @ [EvRmtree (path_str rp)] @ []" using ce by simp
      with ce show ?thesis by blast
    qed
  next
    case (Inr u)
    obtain m f2 where mk: "mkdir_parents True (cwd E) (anchor (path_parent rp))
                          (names (path_parent rp)) (files w1) = (m, f2)"
      by (cases "mkdir_parents True (cwd E) (anchor (path_parent rp)) (names (path_parent rp)) (files w1)")
    show ?thesis
    proof (cases m)
      case (Inl e)
      with eq Inr mk have ce: "c = Inl e" "w' = w1\<lparr>files := f2\<rparr>" by simp_all
      from tr1 show ?thesis
      proof
        assume "trace w1 = trace w @ []"
        then have "trace w' = trace w @ [] @ []" using ce by simp
        with ce show ?thesis by blast
      next
        assume "trace w1 = trace w @ [EvRmtree (path_str rp)]"
        then have "trace w' = trace w @ [EvRmtree (path_str rp)] @ []" using ce by simp
        with ce show ?thesis by blast
      qed
    next
      case (Inr u2)
      with eq \<open>r1 = Inr u\<close> mk have "run_git_clone self E url rp (w1\<lparr>files := f2\<rparr>) = (c, w')"
        by simp
      from run_git_clone_result[OF this] obtain cmd oc where
        g: "trace w' = trace (w1\<lparr>files := f2\<rparr>) @ [EvGitClone cmd oc]"
           "if proc_ok oc then c = Inr (path_str rp) else \<exists>e. c = Inl e"
        by auto
      from tr1 show ?thesis
      proof
        assume "trace w1 = trace w @ []"
        with g have "trace w' = trace w @ [] @ [EvGitClone cmd oc]" by simp
        with g(2) show ?thesis by blast
      next
        assume "trace w1 = trace w @ [EvRmtree (path_str rp)]"
        with g have "trace w' = trace w @ [EvRmtree (path_str rp)] @ [EvGitClone cmd oc]" by simp
        with g(2) show ?thesis by blast
      qed
    qed
  qed
qed

lemma invalidate_index_trace:
  assumes "invalidate_index E repo idir w = (u, w')"
  shows "trace w' = trace w \<or> trace w' = trace w @ [EvRmtree (path_str (path_join (parse_path idir) repo))]"
  using assms
  by (auto simp add: invalidate_index_def delete_repo_index_def Let_def log_event_def
           split: if_splits prod.splits sum.splits)

lemma prepare_input_url:
  assumes "is_probable_git_url raw"
  shows "prepare_input E raw w =
     (case parse_github_url raw of
        Inl e \<Rightarrow> (Inl e, w)
      | Inr (owner, repo) \<Rightarrow> (Inr (Inr (owner, repo, raw)), w))"
  using assms by (simp add: prepare_input_def)

lemma prepare_input_local:
  assumes "\<not> is_probable_git_url raw"
  shows "prepare_input E raw w = prepare_local E raw w"
  using assms by (simp add: prepare_input_def)

section \<open>Path lemmas\<close>

lemma split_on_nonempty: "split_on c s \<noteq> []"
  by (induction s) (auto split: list.splits)

lemma split_on_single: "c \<notin> set s \<Longrightarrow> split_on c s = [s]"
  by (induction s) (auto split: list.splits)

lemma split_on_append: "c \<notin> set a \<Longrightarrow> split_on c (a @ c # b) = a # split_on c b"
  by (induction a) (auto split: list.splits simp: split_on_nonempty)

lemma split_on_no_sep: "n \<in> set (split_on c s) \<Longrightarrow> c \<notin> set n"
proof (induction s arbitrary: n)
  case Nil
  then show ?case by simp
next
  case (Cons x xs)
  show ?case
  proof (cases "x = c")
    case True
    with Cons show ?thesis by auto
  next
    case False
    obtain w ws where sp: "split_on c xs = w # ws"
      using split_on_nonempty[of c xs] by (cases "split_on c xs") auto
    with Cons.prems False have "n = x # w \<or> n \<in> set ws" by simp
    then show ?thesis
    proof
      assume "n = x # w"
      moreover have "c \<notin> set w" using Cons.IH[of w] sp by simp
      ultimately show ?thesis using False by auto
    next
      assume "n \<in> set ws"
      then show ?thesis using Cons.IH[of n] sp by simp
    qed
  qed
qed


lemma parse_anchor_no_slash: "CHR ''/'' \<notin> set s \<Longrightarrow> parse_anchor s = []"
  by (cases s) (auto simp: parse_anchor_def)

lemma parse_path_name:
  assumes "n \<noteq> []" "CHR ''/'' \<notin> set n" "n \<noteq> ''.''"
  shows "parse_path n = PPath [] [n]"
  using assms by (simp add: parse_path_def parse_anchor_no_slash split_on_single)

lemma parse_path_dot: "parse_path ''.'' = PPath [] []"
  by (simp add: parse_path_def parse_anchor_def)

lemma parse_path_Nil: "parse_path [] = PPath [] []"
  by (simp add: parse_path_def parse_anchor_def)

lemma parse_path_my_repos: "parse_path ''my_repos'' = PPath [] [''my_repos'']"
  by (simp add: parse_path_def parse_anchor_def)

lemma join_names_append1: "ns \<noteq> [] \<Longrightarrow> join_names (ns @ [n]) = join_names ns @ ''/'' @ n"
  by (induction ns rule: join_names.induct) auto

section \<open>Segments of a parsed URL\<close>

lemma repo_lazy_Some:
  "repo_lazy acc s = Some r \<Longrightarrow> \<exists>p. r = acc @ p \<and> p \<noteq> [] \<and> CHR ''/'' \<notin> set p"
proof (induction acc s rule: repo_lazy.induct)
  case (1 acc)
  then show ?case by simp
next
  case (2 acc c cs)
  show ?case
  proof (cases "c = CHR ''/''")
    case True
    with 2 show ?thesis by simp
  next
    case False
    note nc = this
    show ?thesis
    proof (cases "tail_ok cs")
      case True
      with 2 nc have "r = acc @ [c]" by simp
      with nc show ?thesis by auto
    next
      case False
      with 2 nc obtain p where "r = (acc @ [c]) @ p" "CHR ''/'' \<notin> set p" by auto
      with nc have "r = acc @ (c # p) \<and> c # p \<noteq> [] \<and> CHR ''/'' \<notin> set (c # p)" by auto
      then show ?thesis by blast
    qed
  qed
qed

lemma match_here_Some:
  assumes "match_here s = Some (owner, repo)"
  shows "owner \<noteq> [] \<and> CHR ''/'' \<notin> set owner \<and> repo \<noteq> [] \<and> CHR ''/'' \<notin> set repo"
proof -
  from assms obtain sep rest where sp: "strip_prefix ''github.com'' s = Some (sep # rest)"
    by (auto simp: match_here_def split: option.splits list.splits)
  let ?oc = "takeWhile (\<lambda>c. c \<noteq> CHR ''/'') rest"
  from assms sp have oc: "owner = ?oc" "?oc \<noteq> []"
    by (auto simp: match_here_def Let_def split: if_splits list.splits)
  from assms sp obtain r where "repo_lazy [] r = Some repo"
    by (auto simp: match_here_def Let_def split: if_splits list.splits)
  from repo_lazy_Some[OF this] have "repo \<noteq> [] \<and> CHR ''/'' \<notin> set repo" by auto
  moreover have "CHR ''/'' \<notin> set ?oc"
    using set_takeWhileD by fastforce
  ultimately show ?thesis using oc by simp
qed

lemma re_search_Some:
  "re_search s = Some (owner, repo) \<Longrightarrow>
     owner \<noteq> [] \<and> CHR ''/'' \<notin> set owner \<and> repo \<noteq> [] \<and> CHR ''/'' \<notin> set repo"
proof (induction s)
  case Nil
  then show ?case using match_here_Some by simp
next
  case (Cons c cs)
  then show ?case using match_here_Some[of "c # cs" owner repo]
    by (auto split: option.splits)
qed

lemma parse_github_url_segments:
  assumes "parse_github_url url = Inr (owner, repo)"
  shows "owner \<noteq> [] \<and> CHR ''/'' \<notin> set owner \<and> repo \<noteq> [] \<and> CHR ''/'' \<notin> set repo"
  using assms re_search_Some[of url owner repo]
  by (auto simp: parse_github_url_def split: option.splits)

lemma clone_path_str:
  assumes "owner \<noteq> []" "CHR ''/'' \<notin> set owner" "repo \<noteq> []" "CHR ''/'' \<notin> set repo"
    and "owner \<noteq> ''.''" "repo \<noteq> ''.''"
  shows "path_str (path_join (path_join (parse_path ''my_repos'') owner) repo)
           = ''my_repos/'' @ owner @ ''/'' @ repo"
  using assms by (simp add: parse_path_name parse_path_my_repos path_join_def path_str_def)

lemma not_url_Nil: "\<not> is_probable_git_url []"
  by (simp add: is_probable_git_url_def py_contains_def)

lemma ingest_repo_url_run:
  assumes url: "is_probable_git_url (py_strip inp)"
    and run: "ingest_repo self E inp od clone idir w = (r, w')"
  obtains
    (stopped) e evs where "r = Inl e" "trace w' = trace w @ evs"
      "evs = [] \<or> (\<exists>p. evs = [EvRmtree p])"
  | (tool_failed) owner repo pre cmd tok oc res where
      "parse_github_url (py_strip inp) = Inr (owner, repo)"
      "r = Inr res" "\<not> success res" "repo_input res = Some (py_strip inp)"
      "trace w' = trace w @ pre @ [EvGitingest cmd tok oc]"
      "pre = [] \<or> (\<exists>p. pre = [EvRmtree p])"
      "\<forall>rc err. oc = Completed rc err \<longrightarrow> rc \<noteq> 0 \<longrightarrow> res = failure (py_strip err) (Some (py_strip inp))"
  | (not_cloned) owner repo pre cmd tok oc where
      "parse_github_url (py_strip inp) = Inr (owner, repo)"
      "r = Inr ((ingested (py_strip inp))
              \<lparr>output_file := Some (od @ ''/'' @ owner @ ''_'' @ repo @ ''_'' @ now_stamp E @ ''.txt'')\<rparr>)"
      "trace w' = trace w @ pre @ [EvGitingest cmd tok oc]" "proc_ok oc"
      "pre = [] \<or> (\<exists>p. pre = [EvRmtree p])"
  | (cloned) owner repo pre cmd tok oc cpre cpost c where
      "parse_github_url (py_strip inp) = Inr (owner, repo)"
      "clone"
      "r = Inr ((ingested (py_strip inp))
              \<lparr>output_file := Some (od @ ''/'' @ owner @ ''_'' @ repo @ ''_'' @ now_stamp E @ ''.txt''),
               local_repo := Some c\<rparr>)"
      "trace w' = trace w @ pre @ [EvGitingest cmd tok oc] @ cpre @ cpost" "proc_ok oc"
      "pre = [] \<or> (\<exists>p. pre = [EvRmtree p])"
      "cpre = [] \<or> (\<exists>p. cpre = [EvRmtree p])"
      "(cpost = [] \<and> c = None)
       \<or> (\<exists>ccmd co. cpost = [EvGitClone ccmd co]
            \<and> (if proc_ok co
                then c = Some (path_str (path_join (path_join (parse_path ''my_repos'') owner) repo))
                else c = None))"
  using run
proof (cases rule: ingest_repo_elim)
  case (mkdir_fail e)
  then show ?thesis using stopped[of e "[]"] by simp
next
  case (empty f0)
  with url show ?thesis using not_url_Nil by simp
next
  case (prep_raise f0 e)
  then have "w' = w\<lparr>files := f0\<rparr>"
    by (auto simp: prepare_input_url[OF url] split: sum.splits)
  with prep_raise show ?thesis using stopped[of e "[]"] by simp
next
  case (prep_fail f0 res)
  then show ?thesis
    by (auto simp: prepare_input_url[OF url] split: sum.splits)
next
  case (inval_raise f0 owner repo eff w1 e)
  then have w1: "w1 = w\<lparr>files := f0\<rparr>"
    by (auto simp: prepare_input_url[OF url] split: sum.splits)
  from invalidate_index_trace[OF inval_raise(4)] w1
  have "trace w' = trace w @ [] \<or> (\<exists>p. trace w' = trace w @ [EvRmtree p])" by auto
  then show ?thesis using stopped[of e] inval_raise(5) by blast
next
  case (run f0 owner repo eff w1 w2 res)
  then have w1: "w1 = w\<lparr>files := f0\<rparr>" and eff: "eff = py_strip inp"
    and parse: "parse_github_url (py_strip inp) = Inr (owner, repo)"
    by (auto simp: prepare_input_url[OF url] split: sum.splits)
  from invalidate_index_trace[OF run(4)] w1
  obtain pre where pre: "trace w2 = trace w @ pre" "pre = [] \<or> (\<exists>p. pre = [EvRmtree p])"
    by auto
  define out where "out = od @ ''/'' @ owner @ ''_'' @ repo @ ''_'' @ now_stamp E @ ''.txt''"
  from run(5) out_def show ?thesis
  proof (cases rule: ingest_and_clone_elim)
    case tool_fail
    from invoke_gitingest_result[OF tool_fail(1)] obtain cmd tok oc where
      g: "trace w' = trace w2 @ [EvGitingest cmd tok oc]" "repo_input res = Some eff"
         "\<forall>rc err. oc = Completed rc err \<longrightarrow> rc \<noteq> 0 \<longrightarrow> res = failure (py_strip err) (Some eff)"
      by blast
    show ?thesis
      using tool_failed[OF parse run(6) tool_fail(2), of pre cmd tok oc] g pre eff by simp
  next
    case (no_clone r1)
    from invoke_gitingest_result[OF no_clone(1)] no_clone(2) obtain cmd tok oc where
      g: "trace w' = trace w2 @ [EvGitingest cmd tok oc]" "proc_ok oc" "r1 = ingested eff"
      by blast
    show ?thesis
      using not_cloned[OF parse, of pre cmd tok oc] g pre eff no_clone(4) run(6) out_def by simp
  next
    case (clone_ok r1 w3 p)
    from invoke_gitingest_result[OF clone_ok(1)] clone_ok(2) obtain cmd tok oc where
      g: "trace w3 = trace w2 @ [EvGitingest cmd tok oc]" "proc_ok oc" "r1 = ingested eff"
      by blast
    from clone_repo_result[OF clone_ok(6) parse[folded eff] refl] obtain cpre cpost where
      c: "trace w' = trace w3 @ cpre @ cpost"
         "cpre = [] \<or> cpre = [EvRmtree (path_str (path_join (path_join (parse_path ''my_repos'') owner) repo))]"
         "(cpost = [] \<and> (\<exists>e. (Inr p :: exn + string) = Inl e))
          \<or> (\<exists>ccmd co. cpost = [EvGitClone ccmd co]
               \<and> (if proc_ok co
                   then (Inr p :: exn + string) = Inr (path_str (path_join (path_join (parse_path ''my_repos'') owner) repo))
                   else \<exists>e. (Inr p :: exn + string) = Inl e))"
      by blast
    have t: "trace w' = trace w @ pre @ [EvGitingest cmd tok oc] @ cpre @ cpost"
      using c(1) g(1) pre(1) by simp
    show ?thesis
    proof (rule cloned[OF parse clone_ok(3) _ t g(2) pre(2), of "Some p"])
      show "r = Inr ((ingested (py_strip inp))
              \<lparr>output_file := Some (od @ ''/'' @ owner @ ''_'' @ repo @ ''_'' @ now_stamp E @ ''.txt''),
               local_repo := Some (Some p)\<rparr>)"
        using run(6) clone_ok(7) g(3) eff out_def by simp
      show "cpre = [] \<or> (\<exists>p. cpre = [EvRmtree p])" using c(2) by auto
      show "(cpost = [] \<and> Some p = None)
       \<or> (\<exists>ccmd co. cpost = [EvGitClone ccmd co]
            \<and> (if proc_ok co
                then Some p = Some (path_str (path_join (path_join (parse_path ''my_repos'') owner) repo))
                else Some p = None))"
        using c(3) by (auto split: if_splits)
    qed
  next
    case (clone_fail r1 w3 e)
    from invoke_gitingest_result[OF clone_fail(1)] clone_fail(2) obtain cmd tok oc where
      g: "trace w3 = trace w2 @ [EvGitingest cmd tok oc]" "proc_ok oc" "r1 = ingested eff"
      by blast
    from clone_repo_result[OF clone_fail(6) parse[folded eff] refl] obtain cpre cpost where
      c: "trace w' = trace w3 @ cpre @ cpost"
         "cpre = [] \<or> cpre = [EvRmtree (path_str (path_join (path_join (parse_path ''my_repos'') owner) repo))]"
         "(cpost = [] \<and> (\<exists>e'. (Inl e :: exn + string) = Inl e'))
          \<or> (\<exists>ccmd co. cpost = [EvGitClone ccmd co]
               \<and> (if proc_ok co
                   then (Inl e :: exn + string) = Inr (path_str (path_join (path_join (parse_path ''my_repos'') owner) repo))
                   else \<exists>e'. (Inl e :: exn + string) = Inl e'))"
      by blast
    have t: "trace w' = trace w @ pre @ [EvGitingest cmd tok oc] @ cpre @ cpost"
      using c(1) g(1) pre(1) by simp
    show ?thesis
    proof (rule cloned[OF parse clone_fail(3) _ t g(2) pre(2), of None])
      show "r = Inr ((ingested (py_strip inp))
              \<lparr>output_file := Some (od @ ''/'' @ owner @ ''_'' @ repo @ ''_'' @ now_stamp E @ ''.txt''),
               local_repo := Some None\<rparr>)"
        using run(6) clone_fail(7) g(3) eff out_def by simp
      show "cpre = [] \<or> (\<exists>p. cpre = [EvRmtree p])" using c(2) by auto
      show "(cpost = [] \<and> None = None)
       \<or> (\<exists>ccmd co. cpost = [EvGitClone ccmd co]
            \<and> (if proc_ok co
                then None = Some (path_str (path_join (path_join (parse_path ''my_repos'') owner) repo))
                else None = None))"
        using c(3) by (auto split: if_splits)
    qed
  qed
qed

section \<open>Remote references: the outcome of the two programs\<close>

text \<open>
  C5.  For a remote reference, if the ingestion tool was run and exited with a non-zero
  status, then \<open>ingest_repo\<close> returns a record with \<open>success\<close> false, with \<open>error\<close> equal
  to the stripped text of the tool's standard error, with the stripped input as
  \<open>repo_input\<close> and with no other key; the invocation of the tool is the last effect of
  the run, only the removal of an index can precede it, and no clone is invoked.
\<close>

theorem ingest_repo_tool_failure:
  assumes "is_probable_git_url (py_strip inp)"
    and "ingest_repo self E inp output_dir clone indexes_dir w = (r, w')"
    and "trace w = []"
    and "EvGitingest cmd tok (Completed rc err) \<in> set (trace w')"
    and "rc \<noteq> 0"
  shows "\<exists>res pre. r = Inr res
       \<and> success res = False
       \<and> error res = Some (py_strip err)
       \<and> repo_input res = Some (py_strip inp)
       \<and> structured_text res = None \<and> output_file res = None \<and> local_repo res = None
       \<and> trace w' = pre @ [EvGitingest cmd tok (Completed rc err)]
       \<and> (pre = [] \<or> (\<exists>p. pre = [EvRmtree p]))
       \<and> (\<forall>ccmd co. EvGitClone ccmd co \<notin> set (trace w'))"
  using assms(1,2)
proof (cases rule: ingest_repo_url_run)
  case (stopped e evs)
  with assms(3,4) show ?thesis by auto
next
  case (tool_failed owner repo pre cmd' tok' oc res)
  with assms(3,4) have ev: "cmd' = cmd" "tok' = tok" "oc = Completed rc err" by auto
  with tool_failed(7) assms(5) have res: "res = failure (py_strip err) (Some (py_strip inp))"
    by simp
  have tr: "trace w' = pre @ [EvGitingest cmd tok (Completed rc err)]"
    using tool_failed(5) assms(3) ev by simp
  have nc: "\<forall>ccmd co. EvGitClone ccmd co \<notin> set (trace w')"
    using tr tool_failed(6) by auto
  show ?thesis
    using tool_failed(2,6) res tr nc by (simp add: failure_def)
next
  case (not_cloned owner repo pre cmd' tok' oc)
  with assms(3,4) have "oc = Completed rc err" by auto
  with not_cloned(4) assms(5) show ?thesis by simp
next
  case (cloned owner repo pre cmd' tok' oc cpre cpost c)
  with assms(3,4) have "oc = Completed rc err" by auto
  with cloned(5) assms(5) show ?thesis by simp
qed

theorem ingest_repo_tool_failure_witness:
  "\<exists>res. fst (ingest_repo demo_self (demo_env stub_gitingest_fail stub_git_ok) ''https://github.com/o/r''
             default_output_dir True default_indexes_dir demo_world) = Inr res
       \<and> success res = False
       \<and> error res = Some ''auth failed''
       \<and> repo_input res = Some ''https://github.com/o/r''
       \<and> (\<forall>ccmd co. EvGitClone ccmd co \<notin> set (trace (snd
             (ingest_repo demo_self (demo_env stub_gitingest_fail stub_git_ok) ''https://github.com/o/r''
                default_output_dir True default_indexes_dir demo_world))))"
proof -
  let ?run = "ingest_repo demo_self (demo_env stub_gitingest_fail stub_git_ok) ''https://github.com/o/r''
          default_output_dir True default_indexes_dir demo_world"
  have u: "is_probable_git_url (py_strip ''https://github.com/o/r'')"
    by (simp add: eval_defs)
  have t: "trace (snd ?run) = [EvGitingest
      [''gitingest'', ''https://github.com/o/r'', ''--output'', ''gitingest_outputs/o_r_20240101_000000.txt'']
      None (Completed 1 (''auth failed'' @ [CHR 0x0A]))]"
    by (simp add: eval_defs)
  have e: "EvGitingest
      [''gitingest'', ''https://github.com/o/r'', ''--output'', ''gitingest_outputs/o_r_20240101_000000.txt'']
      None (Completed 1 (''auth failed'' @ [CHR 0x0A])) \<in> set (trace (snd ?run))"
    unfolding t by simp
  have z: "trace demo_world = []" by (simp add: demo_world_def)
  have s: "py_strip (''auth failed'' @ [CHR 0x0A]) = ''auth failed''"
    by (simp add: string_defs)
  have p: "py_strip ''https://github.com/o/r'' = ''https://github.com/o/r''"
    by (simp add: string_defs)
  from ingest_repo_tool_failure[OF u prod.collapse[symmetric] z e] show ?thesis
    unfolding s p by auto
qed




text \<open>
  C1.  For a remote reference, if the clone was invoked and ended with status 0, then the
  reference parses into an owner and a repository, the ingestion tool was invoked and
  ended with status 0, and the result is a success record whose \<open>output_file\<close> is
  \<open>{output_dir}/{owner}_{repo}_{timestamp}.txt\<close> and whose \<open>local_repo\<close> is the path
  \<open>my_repos / owner / repo\<close> as pathlib prints it; that is the string
  \<open>my_repos/{owner}/{repo}\<close> whenever neither segment is a single dot.
\<close>

theorem ingest_repo_remote_success:
  assumes "is_probable_git_url (py_strip inp)"
    and "ingest_repo self E inp output_dir clone indexes_dir w = (r, w')"
    and "trace w = []"
    and "EvGitClone ccmd co \<in> set (trace w')"
    and "proc_ok co"
  shows "\<exists>owner repo res gcmd gtok goc.
           parse_github_url (py_strip inp) = Inr (owner, repo)
         \<and> EvGitingest gcmd gtok goc \<in> set (trace w') \<and> proc_ok goc
         \<and> r = Inr res \<and> success res
         \<and> output_file res = Some (output_dir @ ''/'' @ owner @ ''_'' @ repo @ ''_'' @ now_stamp E @ ''.txt'')
         \<and> local_repo res = Some (Some (path_str (path_join (path_join (parse_path ''my_repos'') owner) repo)))
         \<and> (owner \<noteq> ''.'' \<and> repo \<noteq> ''.'' \<longrightarrow>
               local_repo res = Some (Some (''my_repos/'' @ owner @ ''/'' @ repo)))"
  using assms(1,2)
proof (cases rule: ingest_repo_url_run)
  case (stopped e evs)
  with assms(3,4) show ?thesis by auto
next
  case (tool_failed owner repo pre cmd' tok' oc res)
  with assms(3,4) show ?thesis by auto
next
  case (not_cloned owner repo pre cmd' tok' oc)
  with assms(3,4) show ?thesis by auto
next
  case (cloned owner repo pre cmd' tok' oc cpre cpost c)
  let ?p = "path_str (path_join (path_join (parse_path ''my_repos'') owner) repo)"
  from cloned(4,6,7,8) assms(3,4) have "cpost = [EvGitClone ccmd co]" by auto
  with cloned(8) assms(5) have c: "c = Some ?p" by auto
  have ev: "EvGitingest cmd' tok' oc \<in> set (trace w')" using cloned(4) by simp
  from parse_github_url_segments[OF cloned(1)]
  have lit: "owner \<noteq> ''.'' \<and> repo \<noteq> ''.'' \<longrightarrow> ?p = ''my_repos/'' @ owner @ ''/'' @ repo"
    using clone_path_str[of owner repo] by blast
  show ?thesis
    using cloned(1,3,5) c ev lit by (simp add: ingested_def) blast
qed

theorem ingest_repo_remote_success_witness:
  "\<exists>res. fst (ingest_repo demo_self ok_env ''https://github.com/o/r.git''
                default_output_dir True default_indexes_dir demo_world) = Inr res
       \<and> success res
       \<and> output_file res = Some ''gitingest_outputs/o_r_20240101_000000.txt''
       \<and> local_repo res = Some (Some ''my_repos/o/r'')"
proof -
  let ?run = "ingest_repo demo_self ok_env ''https://github.com/o/r.git''
                default_output_dir True default_indexes_dir demo_world"
  have u: "is_probable_git_url (py_strip ''https://github.com/o/r.git'')"
    by (simp add: eval_defs)
  have t: "trace (snd ?run) = [EvGitingest
      [''gitingest'', ''https://github.com/o/r.git'', ''--output'', ''gitingest_outputs/o_r_20240101_000000.txt'']
      None (Completed 0 []),
      EvGitClone [''git'', ''clone'', ''--depth'', ''1'', ''https://github.com/o/r.git'', ''my_repos/o/r'']
        (Completed 0 [])]"
    by (simp add: eval_defs)
  have e: "EvGitClone [''git'', ''clone'', ''--depth'', ''1'', ''https://github.com/o/r.git'', ''my_repos/o/r'']
        (Completed 0 []) \<in> set (trace (snd ?run))"
    unfolding t by simp
  have z: "trace demo_world = []" by (simp add: demo_world_def)
  have n: "proc_ok (Completed 0 [])" by simp
  have p: "parse_github_url (py_strip ''https://github.com/o/r.git'') = Inr (''o'', ''r'')"
    by (simp add: eval_defs)
  have d: "default_output_dir = ''gitingest_outputs''" "now_stamp ok_env = ''20240101_000000''"
    by (simp_all add: demo_defs)
  from ingest_repo_remote_success[OF u prod.collapse[symmetric] z e n] show ?thesis
    unfolding p d by auto
qed

text \<open>
  With the owner segment \<open>.\<close> both programs succeed and \<open>local_repo\<close> is \<open>my_repos/r\<close>:
  pathlib drops the dot.
\<close>

theorem ingest_repo_dot_owner_counterexample:
  "fst (ingest_repo demo_self ok_env ''https://github.com/./r''
          default_output_dir True default_indexes_dir demo_world)
     = Inr ((ingested ''https://github.com/./r'')
              \<lparr>output_file := Some ''gitingest_outputs/._r_20240101_000000.txt'',
               local_repo := Some (Some ''my_repos/r'')\<rparr>)
   \<and> parse_github_url ''https://github.com/./r'' = Inr (''.'', ''r'')
   \<and> EvGitClone [''git'', ''clone'', ''--depth'', ''1'', ''https://github.com/./r'', ''my_repos/r'']
        (Completed 0 [])
      \<in> set (trace (snd (ingest_repo demo_self ok_env ''https://github.com/./r''
                            default_output_dir True default_indexes_dir demo_world)))
   \<and> ''my_repos/r'' \<noteq> ''my_repos/'' @ ''.'' @ ''/'' @ ''r''"
  by (simp add: eval_defs)

section \<open>Growth of the file system\<close>

lemma fs_grows_refl: "fs_grows f f"
  by (simp add: fs_grows_def)

lemma fs_grows_trans: "fs_grows f g \<Longrightarrow> fs_grows g h \<Longrightarrow> fs_grows f h"
  by (auto simp: fs_grows_def)

lemma walk_grows:
  "fs_grows f f' \<Longrightarrow> walk f cur ns = Inr q \<Longrightarrow> walk f' cur ns = Inr q"
proof (induction ns arbitrary: cur)
  case Nil
  then show ?case by simp
next
  case (Cons n ns)
  from Cons.prems(2) have d: "f cur = Some Dir"
    by (auto split: option.splits node.splits)
  with Cons.prems(1) have d': "f' cur = Some Dir" by (simp add: fs_grows_def)
  from Cons.prems(2) d Cons.IH[OF Cons.prems(1)] d' show ?case
    by (auto split: if_splits)
qed

lemma locate_grows:
  "fs_grows f f' \<Longrightarrow> locate wd f p = Inr q \<Longrightarrow> locate wd f' p = Inr q"
  unfolding locate_def by (rule walk_grows)

lemma path_is_dir_grows:
  assumes "fs_grows f f'" "path_is_dir wd f p"
  shows "path_is_dir wd f' p"
proof -
  from assms(2) obtain q where q: "locate wd f p = Inr q" "f q = Some Dir"
    by (auto simp: path_is_dir_def split: sum.splits)
  from locate_grows[OF assms(1) q(1)] q(2) assms(1) show ?thesis
    by (simp add: path_is_dir_def fs_grows_def)
qed

lemma path_exists_grows:
  assumes "fs_grows f f'" "path_exists wd f p"
  shows "path_exists wd f' p"
proof -
  from assms(2) obtain q where q: "locate wd f p = Inr q" "f q \<noteq> None"
    by (auto simp: path_exists_def split: sum.splits)
  from locate_grows[OF assms(1) q(1)] q(2) assms(1) show ?thesis
    by (simp add: path_exists_def fs_grows_def)
qed

lemma os_path_isdir_grows:
  "fs_grows f f' \<Longrightarrow> os_path_isdir wd f s \<Longrightarrow> os_path_isdir wd f' s"
  by (auto simp: os_path_isdir_def intro: path_is_dir_grows)

lemma os_mkdir_grows: "os_mkdir wd p f = Inr f' \<Longrightarrow> fs_grows f f'"
  by (auto simp: os_mkdir_def fs_grows_def split: sum.splits if_splits)

lemma mkdir_once_grows: "mkdir_once ok wd p f = Inr f' \<Longrightarrow> fs_grows f f'"
  by (auto simp: mkdir_once_def fs_grows_refl split: sum.splits exn.splits if_splits
           dest: os_mkdir_grows)

lemma mkdir_parents_grows: "mkdir_parents ok wd a ns f = (x, f') \<Longrightarrow> fs_grows f f'"
proof (induction ok wd a ns f arbitrary: x f' rule: mkdir_parents.induct)
  case (1 exist_ok wd a ns f)
  show ?case
  proof (cases "os_mkdir wd (PPath a ns) f")
    case (Inr g)
    with "1.prems" have "f' = g" by (simp add: mkdir_parents.simps[of exist_ok wd a ns f])
    with Inr show ?thesis using os_mkdir_grows by blast
  next
    case (Inl e)
    show ?thesis
    proof (cases "\<exists>m. e = FileNotFoundError m")
      case False
      with Inl "1.prems" have "f' = f"
        by (cases e) (auto simp add: mkdir_parents.simps[of exist_ok wd a ns f] split: if_splits)
      then show ?thesis by (simp add: fs_grows_refl)
    next
      case True
      then obtain m where e: "e = FileNotFoundError m" by blast
      show ?thesis
      proof (cases "ns = []")
        case True
        with Inl e "1.prems"[unfolded mkdir_parents.simps[of exist_ok wd a ns f]] have "f' = f"
          by simp
        then show ?thesis by (simp add: fs_grows_refl)
      next
        case False
        obtain y f1 where rec: "mkdir_parents True wd a (butlast ns) f = (y, f1)"
          by (cases "mkdir_parents True wd a (butlast ns) f")
        from "1.IH"[OF Inl e False rec] have g1: "fs_grows f f1" .
        show ?thesis
        proof (cases y)
          case (Inl e')
          with \<open>os_mkdir wd (PPath a ns) f = Inl e\<close> e False rec "1.prems" have "f' = f1"
            by (simp add: mkdir_parents.simps[of exist_ok wd a ns f])
          with g1 show ?thesis by simp
        next
          case (Inr u)
          show ?thesis
          proof (cases "mkdir_once exist_ok wd (PPath a ns) f1")
            case (Inl e2)
            with \<open>os_mkdir wd (PPath a ns) f = Inl e\<close> e False rec Inr "1.prems" have "f' = f1"
              by (simp add: mkdir_parents.simps[of exist_ok wd a ns f])
            with g1 show ?thesis by simp
          next
            case (Inr f2)
            with \<open>os_mkdir wd (PPath a ns) f = Inl e\<close> e False rec \<open>y = Inr u\<close> "1.prems" have "f' = f2"
              by (simp add: mkdir_parents.simps[of exist_ok wd a ns f])
            with g1 mkdir_once_grows[OF Inr] show ?thesis using fs_grows_trans by blast
          qed
        qed
      qed
    qed
  qed
qed

lemma write_text_grows: "write_text wd p c f = Inr f' \<Longrightarrow> fs_grows f f'"
  by (auto simp: write_text_def fs_grows_def split: sum.splits option.splits node.splits if_splits)

section \<open>Resolved paths\<close>

lemma walk_collapse: "walk f cur ns = Inr q \<Longrightarrow> q = collapse cur ns"
  by (induction ns arbitrary: cur) (auto split: option.splits node.splits if_splits)

lemma path_is_dir_resolve:
  assumes "path_is_dir wd f p"
  shows "locate wd f p = Inr (names (resolve wd p)) \<and> f (names (resolve wd p)) = Some Dir"
  using assms walk_collapse[of f "if anchor p = [] then wd else []" "names p"]
  by (auto simp: path_is_dir_def locate_def resolve_def split: sum.splits)

lemma collapse_names:
  "n \<in> set (collapse acc ns) \<Longrightarrow> n \<in> set acc \<or> (n \<in> set ns \<and> n \<noteq> ''..'')"
proof (induction ns arbitrary: acc)
  case Nil
  then show ?case by simp
next
  case (Cons m ns)
  show ?case
  proof (cases "m = ''..''")
    case True
    with Cons.prems have "n \<in> set (collapse (butlast acc) ns)" by simp
    from Cons.IH[OF this] show ?thesis using in_set_butlastD by fastforce
  next
    case False
    with Cons.prems have "n \<in> set (collapse (acc @ [m]) ns)" by simp
    from Cons.IH[OF this] False show ?thesis by auto
  qed
qed

lemma parse_path_names_valid:
  assumes "n \<in> set (names (parse_path s))" "n \<noteq> ''..''"
  shows "valid_name n"
  using assms split_on_no_sep[of n "CHR ''/''" s]
  by (auto simp: parse_path_def valid_name_def)

lemma resolve_name_valid:
  assumes "list_all valid_name wd" "path_name (resolve wd (parse_path s)) \<noteq> []"
  shows "valid_name (path_name (resolve wd (parse_path s)))"
proof -
  let ?ns = "names (resolve wd (parse_path s))"
  from assms(2) have ne: "?ns \<noteq> []" by (auto simp: path_name_def split: if_splits)
  then have "last ?ns \<in> set ?ns" by simp
  then have "last ?ns \<in> set (collapse (if anchor (parse_path s) = [] then wd else []) (names (parse_path s)))"
    by (simp add: resolve_def)
  from collapse_names[OF this] have "valid_name (last ?ns)"
    using assms(1) parse_path_names_valid[of "last ?ns" s]
    by (auto simp: list_all_iff split: if_splits)
  with ne show ?thesis by (simp add: path_name_def)
qed

lemma marker_file_str:
  assumes "valid_name repo"
  shows "path_str (marker_file repo) = ''my_repos/Local/'' @ repo @ ''/repopath.txt''"
proof -
  have r: "parse_path repo = PPath [] [repo]"
    using assms by (simp add: valid_name_def parse_path_name)
  have l: "parse_path ''Local'' = PPath [] [''Local'']"
    by (simp add: parse_path_def parse_anchor_def)
  have t: "parse_path ''repopath.txt'' = PPath [] [''repopath.txt'']"
    by (simp add: parse_path_def parse_anchor_def)
  show ?thesis
    by (simp add: marker_file_def path_join_def parse_path_my_repos r l t path_str_def)
qed

section \<open>Local paths\<close>

lemma prepare_local_elim:
  assumes "prepare_local E raw w = (x, w')"
    and "lp = normalize_local_path E raw"
    and "rp = resolve (cwd E) (parse_path lp)"
  obtains
    (missing) "\<not> os_path_isdir (cwd E) (files w) lp"
      "x = Inr (Inl (failure (''Local path not found or not a directory: '' @ lp) None))"
      "w' = w"
  | (mkdir_raise) e f1 where "os_path_isdir (cwd E) (files w) lp"
      "x = Inl e" "w' = w\<lparr>files := f1\<rparr>" "fs_grows (files w) f1"
  | (written) f2 where "os_path_isdir (cwd E) (files w) lp"
      "x = Inr (Inr (''Local'', path_name rp, path_str rp))"
      "w' = log_event (EvWrite (path_str (marker_file (path_name rp))) (path_str rp)) (w\<lparr>files := f2\<rparr>)"
      "fs_grows (files w) f2"
      "\<exists>q. locate (cwd E) f2 (marker_file (path_name rp)) = Inr q \<and> f2 q = Some (File (path_str rp))"
proof (cases "os_path_isdir (cwd E) (files w) lp")
  case False
  with assms have "x = Inr (Inl (failure (''Local path not found or not a directory: '' @ lp) None)) \<and> w' = w"
    by (simp add: prepare_local_def Let_def)
  with False show ?thesis using missing by blast
next
  case True
  let ?dir = "path_join (path_join (parse_path ''my_repos'') ''Local'') (path_name rp)"
  obtain m f1 where mk: "mkdir_parents True (cwd E) (anchor ?dir) (names ?dir) (files w) = (m, f1)"
    by (cases "mkdir_parents True (cwd E) (anchor ?dir) (names ?dir) (files w)")
  from mkdir_parents_grows[OF mk] have g1: "fs_grows (files w) f1" .
  show ?thesis
  proof (cases m)
    case (Inl e)
    with assms True mk have "x = Inl e" "w' = w\<lparr>files := f1\<rparr>"
      by (simp_all add: prepare_local_def Let_def)
    with True g1 show ?thesis using mkdir_raise by blast
  next
    case (Inr u)
    note mok = this
    show ?thesis
    proof (cases "write_text (cwd E) (marker_file (path_name rp)) (path_str rp) f1")
      case (Inl e)
      with assms True mk mok have "x = Inl e" "w' = w\<lparr>files := f1\<rparr>"
        by (simp_all add: prepare_local_def Let_def marker_file_def)
      with True g1 show ?thesis using mkdir_raise by blast
    next
      case (Inr f2)
      with assms True mk mok have r: "x = Inr (Inr (''Local'', path_name rp, path_str rp))"
        "w' = log_event (EvWrite (path_str (marker_file (path_name rp))) (path_str rp)) (w\<lparr>files := f2\<rparr>)"
        by (simp_all add: prepare_local_def Let_def marker_file_def)
      have g2: "fs_grows (files w) f2"
        using g1 write_text_grows[OF Inr] fs_grows_trans by blast
      from Inr obtain q where q: "locate (cwd E) f1 (marker_file (path_name rp)) = Inr q"
        "f2 = f1(q \<mapsto> File (path_str rp))"
        by (auto simp: write_text_def split: sum.splits option.splits node.splits if_splits)
      from locate_grows[OF write_text_grows[OF Inr] q(1)] q(2)
      have "\<exists>q. locate (cwd E) f2 (marker_file (path_name rp)) = Inr q \<and> f2 q = Some (File (path_str rp))"
        by auto
      with True r g2 show ?thesis using written by blast
    qed
  qed
qed

lemma ingest_repo_local_run:
  assumes loc: "\<not> is_probable_git_url (py_strip inp)"
    and ne: "py_strip inp \<noteq> []"
    and run: "ingest_repo self E inp od clone idir w = (r, w')"
    and lp: "lp = normalize_local_path E (py_strip inp)"
    and rp: "rp = resolve (cwd E) (parse_path lp)"
  obtains
    (stopped) e where "r = Inl e" "\<forall>cmd tok oc. EvGitingest cmd tok oc \<notin> set (trace w') - set (trace w)"
  | (not_found) f0 where "mkdir_once True (cwd E) (parse_path od) (files w) = Inr f0"
      "\<not> os_path_isdir (cwd E) f0 lp"
      "r = Inr (failure (''Local path not found or not a directory: '' @ lp) None)"
      "w' = w\<lparr>files := f0\<rparr>"
  | (ran) f0 w1 pre cmd tok oc res where
      "mkdir_once True (cwd E) (parse_path od) (files w) = Inr f0"
      "os_path_isdir (cwd E) f0 lp"
      "prepare_local E (py_strip inp) (w\<lparr>files := f0\<rparr>)
         = (Inr (Inr (''Local'', path_name rp, path_str rp)), w1)"
      "\<exists>q. locate (cwd E) (files w1) (marker_file (path_name rp)) = Inr q
            \<and> files w1 q = Some (File (path_str rp))"
      "fs_grows (files w) (files w1)"
      "trace w1 = trace w @ [EvWrite (path_str (marker_file (path_name rp))) (path_str rp)]"
      "r = Inr res" "repo_input res = Some (path_str rp)" "local_repo res = None"
      "trace w' = trace w1 @ pre @ [EvGitingest cmd tok oc]"
      "pre = [] \<or> pre = [EvRmtree (path_str (path_join (parse_path idir) (path_name rp)))]"
      "cmd ! 1 = path_str rp"
  using run
proof (cases rule: ingest_repo_elim)
  case (mkdir_fail e)
  then show ?thesis using stopped[of e] by simp
next
  case (empty f0)
  with ne show ?thesis by simp
next
  case (prep_raise f0 e)
  from prep_raise(3) have "prepare_local E (py_strip inp) (w\<lparr>files := f0\<rparr>) = (Inl e, w')"
    by (simp add: prepare_input_local[OF loc])
  from this lp rp have "trace w' = trace w"
    by (cases rule: prepare_local_elim) (auto simp: log_event_def)
  with prep_raise(4) show ?thesis using stopped[of e] by simp
next
  case (prep_fail f0 res)
  from prep_fail(3) have "prepare_local E (py_strip inp) (w\<lparr>files := f0\<rparr>) = (Inr (Inl res), w')"
    by (simp add: prepare_input_local[OF loc])
  from this lp rp show ?thesis
  proof (cases rule: prepare_local_elim)
    case missing
    with prep_fail(1,4) show ?thesis using not_found[of f0] by simp
  qed simp_all
next
  case (inval_raise f0 owner repo eff w1 e)
  from inval_raise(3) have "prepare_local E (py_strip inp) (w\<lparr>files := f0\<rparr>) = (Inr (Inr (owner, repo, eff)), w1)"
    by (simp add: prepare_input_local[OF loc])
  from this lp rp have "trace w1 = trace w @ [EvWrite (path_str (marker_file (path_name rp))) (path_str rp)]"
    by (cases rule: prepare_local_elim) (auto simp: log_event_def)
  with invalidate_index_trace[OF inval_raise(4)] inval_raise(5) show ?thesis
    using stopped[of e] by auto
next
  case (run f0 owner repo eff w1 w2 res)
  from run(3) have pl: "prepare_local E (py_strip inp) (w\<lparr>files := f0\<rparr>) = (Inr (Inr (owner, repo, eff)), w1)"
    by (simp add: prepare_input_local[OF loc])
  from pl lp rp have facts:
      "os_path_isdir (cwd E) f0 lp" "owner = ''Local''" "repo = path_name rp" "eff = path_str rp"
      "trace w1 = trace w @ [EvWrite (path_str (marker_file (path_name rp))) (path_str rp)]"
      "fs_grows f0 (files w1)"
      "\<exists>q. locate (cwd E) (files w1) (marker_file (path_name rp)) = Inr q
            \<and> files w1 q = Some (File (path_str rp))"
    by (cases rule: prepare_local_elim; simp add: log_event_def)+
  have g: "fs_grows (files w) (files w1)"
    using mkdir_once_grows[OF run(1)] facts(6) fs_grows_trans by blast
  from invalidate_index_trace[OF run(4)] facts(3)
  obtain pre where pre: "trace w2 = trace w1 @ pre"
      "pre = [] \<or> pre = [EvRmtree (path_str (path_join (parse_path idir) (path_name rp)))]"
    by auto
  define out where "out = od @ ''/'' @ owner @ ''_'' @ repo @ ''_'' @ now_stamp E @ ''.txt''"
  from run(5) out_def show ?thesis
  proof (cases rule: ingest_and_clone_elim)
    case tool_fail
    from invoke_gitingest_result[OF tool_fail(1)] obtain cmd tok oc where
      i: "trace w' = trace w2 @ [EvGitingest cmd tok oc]" "cmd = gitingest_cmd self E eff out w2"
         "repo_input res = Some eff" "local_repo res = None"
      by blast
    have c1: "cmd ! 1 = path_str rp" using i(2) facts(4) gitingest_cmd_input[of self E "path_str rp" out w2] by simp
    show ?thesis
      using ran[OF run(1) facts(1) pl[unfolded facts(2,3,4)] facts(7) g facts(5) run(6) _ _ _ pre(2) c1]
        i pre(1) facts(4) by simp
  next
    case (no_clone r1)
    from invoke_gitingest_result[OF no_clone(1)] obtain cmd tok oc where
      i: "trace w' = trace w2 @ [EvGitingest cmd tok oc]" "cmd = gitingest_cmd self E eff out w2"
         "repo_input r1 = Some eff" "local_repo r1 = None"
      by blast
    have c1: "cmd ! 1 = path_str rp" using i(2) facts(4) gitingest_cmd_input[of self E "path_str rp" out w2] by simp
    show ?thesis
      using ran[OF run(1) facts(1) pl[unfolded facts(2,3,4)] facts(7) g facts(5) run(6) _ _ _ pre(2) c1]
        i pre(1) facts(4) no_clone(4) by simp
  next
    case (clone_ok r1 w3 p)
    with loc show ?thesis by simp
  next
    case (clone_fail r1 w3 e)
    with loc show ?thesis by simp
  qed
qed

section \<open>The repository identifier in the result\<close>

text \<open>
  C9.  When \<open>ingest_repo\<close> returns a record, its \<open>repo_input\<close> field is the input handed to
  the ingestion tool: the stripped input string for a remote reference, the resolved
  absolute path for a local directory.  The records for an empty input and for a local
  path that is not a directory have no \<open>repo_input\<close> field.
\<close>

theorem ingest_repo_echo:
  assumes "ingest_repo self E inp output_dir clone indexes_dir w = (Inr res, w')"
    and "mkdir_once True (cwd E) (parse_path output_dir) (files w) = Inr f0"
  shows "repo_input res =
     (if py_strip inp = [] then None
      else if is_probable_git_url (py_strip inp) then Some (py_strip inp)
      else if os_path_isdir (cwd E) f0 (normalize_local_path E (py_strip inp))
           then Some (path_str (resolve (cwd E) (parse_path (normalize_local_path E (py_strip inp)))))
           else None)"
proof (cases "py_strip inp = []")
  case True
  from assms(1) True show ?thesis
    by (cases rule: ingest_repo_elim) (simp_all add: failure_def)
next
  case False
  note ne = this
  show ?thesis
  proof (cases "is_probable_git_url (py_strip inp)")
    case True
    from True assms(1) ne show ?thesis
      by (cases rule: ingest_repo_url_run) (use True in \<open>simp_all add: ingested_def\<close>)
  next
    case False
    from False ne assms(1) refl refl show ?thesis
    proof (cases rule: ingest_repo_local_run)
      case (stopped e)
      then show ?thesis by simp
    next
      case (not_found f0')
      with assms(2) ne False show ?thesis by (simp add: failure_def)
    next
      case (ran f0' w1 pre cmd tok oc res')
      with assms(2) ne False show ?thesis by simp
    qed
  qed
qed

theorem ingest_repo_echo_witness:
  "repo_input ((ingested ''/w/proj'')\<lparr>output_file := Some ''gitingest_outputs/Local_proj_20240101_000000.txt''\<rparr>)
     = Some ''/w/proj''"
proof -
  let ?run = "ingest_repo demo_self ok_env ''proj'' default_output_dir True default_indexes_dir demo_world"
  let ?res = "(ingested ''/w/proj'')\<lparr>output_file := Some ''gitingest_outputs/Local_proj_20240101_000000.txt''\<rparr>"
  have "fst ?run = Inr ?res" by (simp add: eval_defs)
  then have r: "?run = (Inr ?res, snd ?run)" by (metis prod.collapse)
  have m: "mkdir_once True (cwd ok_env) (parse_path default_output_dir) (files demo_world)
     = Inr (demo_files([''w'', ''gitingest_outputs''] \<mapsto> Dir))"
    by (simp add: eval_defs)
  have s: "py_strip ''proj'' = ''proj''" by (simp add: string_defs)
  have u: "\<not> is_probable_git_url ''proj''" by (simp add: eval_defs)
  have d: "os_path_isdir (cwd ok_env) (demo_files([''w'', ''gitingest_outputs''] \<mapsto> Dir))
             (normalize_local_path ok_env ''proj'')"
    by (simp add: eval_defs)
  have p: "path_str (resolve (cwd ok_env) (parse_path (normalize_local_path ok_env ''proj''))) = ''/w/proj''"
    by (simp add: eval_defs)
  from ingest_repo_echo[OF r m] show ?thesis
    unfolding s using u d p by simp
qed

text \<open>
  For a local path that is not a directory the record has no \<open>repo_input\<close> field, although
  the input was \<open>nope\<close>.
\<close>

theorem ingest_repo_echo_counterexample:
  "fst (ingest_repo demo_self ok_env ''nope'' default_output_dir True default_indexes_dir demo_world)
     = Inr (failure ''Local path not found or not a directory: nope'' None)
   \<and> repo_input (failure ''Local path not found or not a directory: nope'' None) = None"
  by (simp add: eval_defs)

section \<open>Validation failures\<close>

lemma ingest_repo_invalid_url_raises:
  assumes "is_probable_git_url (py_strip inp)"
    and "parse_github_url (py_strip inp) = Inl e"
    and "mkdir_once True (cwd E) (parse_path output_dir) (files w) = Inr f0"
  shows "ingest_repo self E inp output_dir clone indexes_dir w = (Inl e, w\<lparr>files := f0\<rparr>)"
proof -
  from assms(1) have ne: "\<not> (inp = [] \<or> py_strip inp = [])"
    using not_url_Nil by (auto simp: py_strip_Nil)
  show ?thesis
    unfolding ingest_repo_def assms(3) sum.case Let_def
    using ne assms(1,2) by (simp add: prepare_input_url)
qed

text \<open>
  C2.  A remote reference that the pattern does not match makes \<open>ingest_repo\<close> raise
  \<open>ValueError\<close>: no failure record is returned.
\<close>

theorem ingest_repo_invalid_url:
  "fst (ingest_repo demo_self ok_env ''https://example.com/foo'' default_output_dir True
          default_indexes_dir demo_world)
     = Inl (ValueError ''Invalid GitHub URL: https://example.com/foo'')
   \<and> is_probable_git_url (py_strip ''https://example.com/foo'')"
  by (simp add: eval_defs)

lemma ingest_repo_missing_local_path:
  assumes "py_strip inp \<noteq> []" "\<not> is_probable_git_url (py_strip inp)"
    and "mkdir_once True (cwd E) (parse_path output_dir) (files w) = Inr f0"
    and "\<not> os_path_isdir (cwd E) f0 (normalize_local_path E (py_strip inp))"
  shows "ingest_repo self E inp output_dir clone indexes_dir w =
     (Inr (failure (''Local path not found or not a directory: '' @ normalize_local_path E (py_strip inp)) None),
      w\<lparr>files := f0\<rparr>)"
proof -
  from assms(1) have ne: "\<not> (inp = [] \<or> py_strip inp = [])" by auto
  show ?thesis
    unfolding ingest_repo_def assms(3) sum.case Let_def
    using ne assms(2,4) by (simp add: prepare_input_local prepare_local_def Let_def)
qed

text \<open>
  C7.  In a working directory without \<open>gitingest_outputs\<close>, the input
  \<open>gitingest_outputs\<close> is a local path that is not an existing directory.  The output
  directory is made before the path is tested, so the test succeeds, the marker file
  is written and the ingestion goes on.
\<close>

theorem ingest_repo_output_dir_as_input:
  "\<not> os_path_isdir (cwd ok_env) (files demo_world) (normalize_local_path ok_env ''gitingest_outputs'')
   \<and> \<not> is_probable_git_url (py_strip ''gitingest_outputs'')
   \<and> fst (ingest_repo demo_self ok_env ''gitingest_outputs'' default_output_dir True
            default_indexes_dir demo_world)
       = Inr ((ingested ''/w/gitingest_outputs'')
               \<lparr>output_file := Some ''gitingest_outputs/Local_gitingest_outputs_20240101_000000.txt''\<rparr>)
   \<and> EvWrite ''my_repos/Local/gitingest_outputs/repopath.txt'' ''/w/gitingest_outputs''
       \<in> set (trace (snd (ingest_repo demo_self ok_env ''gitingest_outputs'' default_output_dir True
            default_indexes_dir demo_world)))"
  by (simp add: eval_defs)

section \<open>Invalidation of a complete index\<close>

lemma walk_append:
  "walk f cur (ns @ ms) = (case walk f cur ns of Inl e \<Rightarrow> Inl e | Inr q \<Rightarrow> walk f q ms)"
  by (induction ns arbitrary: cur) (auto split: option.splits node.splits)

lemma walk_last_dir:
  assumes "walk f cur (ns @ [n]) = Inr q'"
  shows "\<exists>q. walk f cur ns = Inr q \<and> f q = Some Dir"
  using assms
  by (auto simp: walk_append split: sum.splits option.splits node.splits)

lemma parse_path_repo_index: "parse_path ''repo.index'' = PPath [] [''repo.index'']"
  by (simp add: parse_path_def parse_anchor_def)

lemma repo_index_exists_dir:
  assumes "repo_index_exists E repo idir w"
  shows "\<exists>q. locate (cwd E) (files w) (index_dir idir repo) = Inr q \<and> files w q = Some Dir"
proof -
  let ?d = "path_join (parse_path idir) repo"
  from assms have "path_exists (cwd E) (files w) (path_join ?d ''repo.index'')"
    by (simp add: repo_index_exists_def Let_def)
  then obtain q' where
    "walk (files w) (if anchor ?d = [] then cwd E else []) (names ?d @ [''repo.index'']) = Inr q'"
    by (auto simp: path_exists_def locate_def path_join_def[of ?d] parse_path_repo_index Let_def
             split: sum.splits)
  from walk_last_dir[OF this] show ?thesis
    by (simp add: locate_def index_dir_def)
qed

lemma repo_index_exists_grows:
  assumes "fs_grows (files w) (files w1)" "repo_index_exists E repo idir w"
  shows "repo_index_exists E repo idir w1"
  using assms path_exists_grows[OF assms(1)]
  by (simp add: repo_index_exists_def Let_def)

lemma invalidate_index_deletes:
  assumes "repo_index_exists E repo idir w"
    and "invalidate_index E repo idir w = (Inr u, w')"
  shows "\<exists>q. locate (cwd E) (files w) (index_dir idir repo) = Inr q \<and> files w q = Some Dir
           \<and> files w' = remove_tree q (files w)
           \<and> trace w' = trace w @ [EvRmtree (path_str (index_dir idir repo))]"
proof -
  from repo_index_exists_dir[OF assms(1)] obtain q where
    q: "locate (cwd E) (files w) (index_dir idir repo) = Inr q" "files w q = Some Dir" by blast
  then have ex: "path_exists (cwd E) (files w) (path_join (parse_path idir) repo)"
    by (simp add: path_exists_def index_dir_def)
  from assms ex q have "files w' = remove_tree q (files w)
      \<and> trace w' = trace w @ [EvRmtree (path_str (index_dir idir repo))]"
    by (auto simp: invalidate_index_def delete_repo_index_def rmtree_def index_dir_def Let_def
                   log_event_def split: if_splits prod.splits sum.splits)
  with q show ?thesis by blast
qed

lemma invoke_gitingest_call:
  assumes "invoke_gitingest self E eff out w = (res, w')"
  shows "\<exists>cmd tok oc f'. trace w' = trace w @ [EvGitingest cmd tok oc]
           \<and> gitingest_tool E cmd tok (files w) = (oc, f')"
proof -
  obtain oc f' where t: "gitingest_tool E (gitingest_cmd self E eff out w)
      (gitingest_env_token self E eff w) (files w) = (oc, f')"
    by (cases "gitingest_tool E (gitingest_cmd self E eff out w) (gitingest_env_token self E eff w) (files w)")
  have "trace w' = trace w @ [EvGitingest (gitingest_cmd self E eff out w)
      (gitingest_env_token self E eff w) oc]"
    using assms t
    by (cases oc; cases "read_text (cwd E) out f'")
       (auto simp add: invoke_gitingest_def Let_def log_event_def split: if_splits)
  with t show ?thesis by blast
qed

lemma ingest_and_clone_call:
  assumes "ingest_and_clone self E od clone is_url owner repo eff w = (res, w')"
  shows "\<exists>cmd tok oc f' post. trace w' = trace w @ EvGitingest cmd tok oc # post
           \<and> gitingest_tool E cmd tok (files w) = (oc, f')
           \<and> (\<forall>c t x. EvGitingest c t x \<notin> set post)"
proof -
  define out where "out = od @ ''/'' @ owner @ ''_'' @ repo @ ''_'' @ now_stamp E @ ''.txt''"
  from assms out_def show ?thesis
  proof (cases rule: ingest_and_clone_elim)
    case tool_fail
    from invoke_gitingest_call[OF tool_fail(1)] obtain cmd tok oc f' where
      "trace w' = trace w @ EvGitingest cmd tok oc # []"
      "gitingest_tool E cmd tok (files w) = (oc, f')" by auto
    then show ?thesis by (metis empty_iff list.set(1))
  next
    case (no_clone r1)
    from invoke_gitingest_call[OF no_clone(1)] obtain cmd tok oc f' where
      "trace w' = trace w @ EvGitingest cmd tok oc # []"
      "gitingest_tool E cmd tok (files w) = (oc, f')" by auto
    then show ?thesis by (metis empty_iff list.set(1))
  next
    case (clone_ok r1 w1 p)
    from invoke_gitingest_call[OF clone_ok(1)] obtain cmd tok oc f' where
      i: "trace w1 = trace w @ [EvGitingest cmd tok oc]"
      "gitingest_tool E cmd tok (files w) = (oc, f')" by auto
    obtain o1 r1' where pr: "parse_github_url eff = Inr (o1, r1') \<or> (\<exists>e. parse_github_url eff = Inl e)"
      by (cases "parse_github_url eff") auto
    have "\<exists>post. trace w' = trace w1 @ post \<and> (\<forall>c t x. EvGitingest c t x \<notin> set post)"
    proof (cases "parse_github_url eff")
      case (Inl e)
      with clone_ok(6) show ?thesis by (simp add: clone_repo_def)
    next
      case (Inr pr)
      obtain a b where "pr = (a, b)" by (cases pr)
      with Inr clone_repo_result[OF clone_ok(6) _ refl, of a b] show ?thesis by auto
    qed
    then obtain post where "trace w' = trace w @ EvGitingest cmd tok oc # post"
      "\<forall>c t x. EvGitingest c t x \<notin> set post" using i(1) by auto
    with i(2) show ?thesis by blast
  next
    case (clone_fail r1 w1 e)
    from invoke_gitingest_call[OF clone_fail(1)] obtain cmd tok oc f' where
      i: "trace w1 = trace w @ [EvGitingest cmd tok oc]"
      "gitingest_tool E cmd tok (files w) = (oc, f')" by auto
    have "\<exists>post. trace w' = trace w1 @ post \<and> (\<forall>c t x. EvGitingest c t x \<notin> set post)"
    proof (cases "parse_github_url eff")
      case (Inl e)
      with clone_fail(6) show ?thesis by (simp add: clone_repo_def)
    next
      case (Inr pr)
      obtain a b where "pr = (a, b)" by (cases pr)
      with Inr clone_repo_result[OF clone_fail(6) _ refl, of a b] show ?thesis by auto
    qed
    then obtain post where "trace w' = trace w @ EvGitingest cmd tok oc # post"
      "\<forall>c t x. EvGitingest c t x \<notin> set post" using i(1) by auto
    with i(2) show ?thesis by blast
  qed
qed

lemma prepare_input_trace:
  assumes "prepare_input E raw w = (x, w')"
  shows "fs_grows (files w) (files w')
     \<and> (trace w' = trace w \<or> (\<exists>m c. trace w' = trace w @ [EvWrite m c]))"
proof (cases "is_probable_git_url raw")
  case True
  with assms show ?thesis
    by (auto simp: prepare_input_url fs_grows_refl split: sum.splits)
next
  case False
  with assms have "prepare_local E raw w = (x, w')" by (simp add: prepare_input_local)
  from this refl refl show ?thesis
    by (cases rule: prepare_local_elim) (auto simp: fs_grows_refl log_event_def)
qed

lemma prepare_input_name:
  assumes "prepare_input E raw w = (Inr (Inr (owner, repo, eff)), w')"
  shows "repo_name_of E raw = Some repo"
proof (cases "is_probable_git_url raw")
  case True
  with assms show ?thesis
    by (auto simp: prepare_input_url repo_name_of_def split: sum.splits)
next
  case False
  with assms have "prepare_local E raw w = (Inr (Inr (owner, repo, eff)), w')"
    by (simp add: prepare_input_local)
  from this refl refl show ?thesis
    by (cases rule: prepare_local_elim) (use False in \<open>auto simp: repo_name_of_def\<close>)
qed

text \<open>
  C4.  Let \<open>repo\<close> be the repository name of the input and let the three index files
  exist under its index directory when \<open>ingest_repo\<close> is called.  If the ingestion tool
  is invoked in the run, then the removal of the index directory is the effect recorded
  just before that invocation, nothing but the writing of the marker file precedes
  it, and the tool was run on a file system from which the whole tree at the location
  of the index directory had been removed.
\<close>

theorem ingest_repo_invalidates_index:
  assumes "repo_name_of E (py_strip inp) = Some repo"
    and "repo_index_exists E repo indexes_dir w"
    and "ingest_repo self E inp output_dir clone indexes_dir w = (r, w')"
    and "trace w = []"
    and "EvGitingest cmd tok oc \<in> set (trace w')"
  shows "\<exists>pre post q f1 f3.
           trace w' = pre @ EvRmtree (path_str (index_dir indexes_dir repo))
                            # EvGitingest cmd tok oc # post
         \<and> (pre = [] \<or> (\<exists>m c. pre = [EvWrite m c]))
         \<and> locate (cwd E) (files w) (index_dir indexes_dir repo) = Inr q
         \<and> files w q = Some Dir
         \<and> fs_grows (files w) f1
         \<and> gitingest_tool E cmd tok (remove_tree q f1) = (oc, f3)
         \<and> (\<forall>x. prefix q x \<longrightarrow> remove_tree q f1 x = None)"
  using assms(3)
proof (cases rule: ingest_repo_elim)
  case (mkdir_fail e)
  with assms(4,5) show ?thesis by simp
next
  case (empty f0)
  with assms(4,5) show ?thesis by simp
next
  case (prep_raise f0 e)
  from prepare_input_trace[OF prep_raise(3)] assms(4,5) show ?thesis by auto
next
  case (prep_fail f0 res)
  from prepare_input_trace[OF prep_fail(3)] assms(4,5) show ?thesis by auto
next
  case (inval_raise f0 owner rn eff w1 e)
  from prepare_input_trace[OF inval_raise(3)] invalidate_index_trace[OF inval_raise(4)] assms(4,5)
  show ?thesis by auto
next
  case (run f0 owner rn eff w1 w2 res)
  from prepare_input_name[OF run(3)] assms(1) have rn: "rn = repo" by simp
  from prepare_input_trace[OF run(3)] assms(4)
  have g1: "fs_grows f0 (files w1)"
    and t1: "trace w1 = [] \<or> (\<exists>m c. trace w1 = [EvWrite m c])" by auto
  have g: "fs_grows (files w) (files w1)"
    using mkdir_once_grows[OF run(1)] g1 fs_grows_trans by blast
  from repo_index_exists_dir[OF assms(2)] obtain q0 where
    q0: "locate (cwd E) (files w) (index_dir indexes_dir repo) = Inr q0" "files w q0 = Some Dir"
    by blast
  have ex1: "repo_index_exists E repo indexes_dir w1"
    using repo_index_exists_grows[OF g assms(2)] .
  from invalidate_index_deletes[OF ex1 run(4)[unfolded rn]] obtain q where
    q: "locate (cwd E) (files w1) (index_dir indexes_dir repo) = Inr q"
       "files w2 = remove_tree q (files w1)"
       "trace w2 = trace w1 @ [EvRmtree (path_str (index_dir indexes_dir repo))]"
    by blast
  from locate_grows[OF g q0(1)] q(1) have qq: "q = q0" by simp
  from ingest_and_clone_call[OF run(5)] obtain cmd' tok' oc' f3 post where
    c: "trace w' = trace w2 @ EvGitingest cmd' tok' oc' # post"
       "gitingest_tool E cmd' tok' (files w2) = (oc', f3)"
       "\<forall>c t x. EvGitingest c t x \<notin> set post"
    by blast
  from assms(5) c(1,3) q(3) t1 have same: "cmd' = cmd" "tok' = tok" "oc' = oc" by auto
  have tr: "trace w' = trace w1 @ EvRmtree (path_str (index_dir indexes_dir repo))
                            # EvGitingest cmd tok oc # post"
    using c(1) q(3) same by simp
  have tool: "gitingest_tool E cmd tok (remove_tree q0 (files w1)) = (oc, f3)"
    using c(2) q(2) qq same by simp
  have gone: "\<forall>x. prefix q0 x \<longrightarrow> remove_tree q0 (files w1) x = None"
    by (simp add: remove_tree_def)
  from t1 show ?thesis
  proof
    assume "trace w1 = []"
    with tr have "trace w' = [] @ EvRmtree (path_str (index_dir indexes_dir repo))
                            # EvGitingest cmd tok oc # post" by simp
    with q0 g tool gone show ?thesis by blast
  next
    assume "\<exists>m c. trace w1 = [EvWrite m c]"
    then obtain m c where "trace w1 = [EvWrite m c]" by blast
    with tr have "trace w' = [EvWrite m c] @ EvRmtree (path_str (index_dir indexes_dir repo))
                            # EvGitingest cmd tok oc # post" by simp
    with q0 g tool gone show ?thesis by blast
  qed
qed

theorem ingest_repo_invalidates_index_witness:
  "\<exists>pre post. trace (snd (ingest_repo demo_self ok_env ''https://github.com/o/r''
                      default_output_dir True default_indexes_dir indexed_world))
     = pre @ EvRmtree ''indexes/r''
         # EvGitingest [''gitingest'', ''https://github.com/o/r'', ''--output'',
                       ''gitingest_outputs/o_r_20240101_000000.txt''] None (Completed 0 [])
         # post"
proof -
  let ?run = "ingest_repo demo_self ok_env ''https://github.com/o/r''
                      default_output_dir True default_indexes_dir indexed_world"
  have n: "repo_name_of ok_env (py_strip ''https://github.com/o/r'') = Some ''r''"
    by (simp add: repo_name_of_def eval_defs)
  have x: "repo_index_exists ok_env ''r'' default_indexes_dir indexed_world"
    by (simp add: eval_defs)
  have z: "trace indexed_world = []" by (simp add: indexed_world_def)
  have t: "trace (snd ?run) = [EvRmtree ''indexes/r'',
      EvGitingest [''gitingest'', ''https://github.com/o/r'', ''--output'',
                       ''gitingest_outputs/o_r_20240101_000000.txt''] None (Completed 0 []),
      EvGitClone [''git'', ''clone'', ''--depth'', ''1'', ''https://github.com/o/r'', ''my_repos/o/r'']
        (Completed 0 [])]"
    by (simp add: eval_defs)
  have e: "EvGitingest [''gitingest'', ''https://github.com/o/r'', ''--output'',
                       ''gitingest_outputs/o_r_20240101_000000.txt''] None (Completed 0 [])
      \<in> set (trace (snd ?run))"
    unfolding t by simp
  have i: "path_str (index_dir default_indexes_dir ''r'') = ''indexes/r''"
    by (simp add: index_dir_def eval_defs)
  from ingest_repo_invalidates_index[OF n x prod.collapse[symmetric] z e] show ?thesis
    unfolding i by blast
qed

text \<open>
  Without the condition that the ingestion tool is invoked the index need not be
  removed.  Where \<open>gitingest_outputs\<close> is a regular file, the run for the reference
  \<open>https://github.com/o/r\<close> ends with the exception of the first statement and leaves the
  world as it is, the complete index of \<open>r\<close> included.  For the local input \<open>r\<close>, which
  is not a directory, the run returns the failure record of the local branch; nothing
  has been removed and the index of \<open>r\<close> is still complete.
\<close>

theorem ingest_repo_index_kept_counterexample:
  "repo_name_of ok_env (py_strip ''https://github.com/o/r'') = Some ''r''
   \<and> repo_index_exists ok_env ''r'' default_indexes_dir occupied_world
   \<and> ingest_repo demo_self ok_env ''https://github.com/o/r'' default_output_dir True
        default_indexes_dir occupied_world
       = (Inl (FileExistsError
                 (''[Errno 17] File exists: '' @ [CHR 0x27] @ ''gitingest_outputs'' @ [CHR 0x27])),
          occupied_world)
   \<and> repo_name_of ok_env (py_strip ''r'') = Some ''r''
   \<and> repo_index_exists ok_env ''r'' default_indexes_dir indexed_world
   \<and> fst (ingest_repo demo_self ok_env ''r'' default_output_dir True default_indexes_dir
            indexed_world)
       = Inr (failure ''Local path not found or not a directory: r'' None)
   \<and> trace (snd (ingest_repo demo_self ok_env ''r'' default_output_dir True default_indexes_dir
                   indexed_world)) = []
   \<and> repo_index_exists ok_env ''r'' default_indexes_dir
        (snd (ingest_repo demo_self ok_env ''r'' default_output_dir True default_indexes_dir
                indexed_world))"
  by (simp add: repo_name_of_def eval_defs)

section \<open>Where the file system changes\<close>

lemma changed_only_below_refl: "changed_only_below D f f"
  by (simp add: changed_only_below_def)

lemma changed_only_below_trans:
  "changed_only_below D f g \<Longrightarrow> changed_only_below D g h \<Longrightarrow> changed_only_below D f h"
  unfolding changed_only_below_def by metis

lemma changed_only_below_mono:
  "changed_only_below D f g \<Longrightarrow> D \<subseteq> D' \<Longrightarrow> changed_only_below D' f g"
  unfolding changed_only_below_def by blast

lemma changed_only_below_upd:
  "prefix d q \<Longrightarrow> d \<in> D \<Longrightarrow> changed_only_below D f (f(q := v))"
  by (auto simp: changed_only_below_def)

lemma unchanged_below_refl: "unchanged_below d f f"
  by (simp add: unchanged_below_def)

lemma unchanged_below_trans:
  "unchanged_below d f g \<Longrightarrow> unchanged_below d g h \<Longrightarrow> unchanged_below d f h"
  by (simp add: unchanged_below_def)

lemma unchanged_below_sub:
  "unchanged_below d f g \<Longrightarrow> prefix d q \<Longrightarrow> unchanged_below q f g"
  unfolding unchanged_below_def using prefix_order.trans by blast

lemma sibling_not_prefix:
  assumes "a \<noteq> b" "prefix (wd @ [a]) x"
  shows "\<not> prefix (wd @ [b]) x"
proof
  assume "prefix (wd @ [b]) x"
  with assms(2) obtain s t where "x = (wd @ [a]) @ s" "x = (wd @ [b]) @ t"
    by (auto simp: prefix_def)
  then have "a # s = b # t" by simp
  with assms(1) show False by simp
qed

lemma changed_elsewhere_unchanged:
  assumes "changed_only_below D f g" "\<forall>d\<in>D. \<exists>a. d = wd @ [a] \<and> a \<noteq> b"
  shows "unchanged_below (wd @ [b]) f g"
  unfolding unchanged_below_def
proof (intro allI impI)
  fix x assume p: "prefix (wd @ [b]) x"
  show "g x = f x"
  proof (rule ccontr)
    assume "g x \<noteq> f x"
    with assms(1) obtain d where d: "d \<in> D" "prefix d x" by (auto simp: changed_only_below_def)
    with assms(2) obtain a where a: "d = wd @ [a]" "a \<noteq> b" by blast
    from sibling_not_prefix[OF a(2) d(2)[unfolded a(1)]] p show False by simp
  qed
qed

lemma collapse_plain: "''..'' \<notin> set ns \<Longrightarrow> collapse acc ns = acc @ ns"
  by (induction ns arbitrary: acc) auto

lemma walk_plain: "''..'' \<notin> set ns \<Longrightarrow> walk f cur ns = Inr q \<Longrightarrow> q = cur @ ns"
  using walk_collapse[of f cur ns q] collapse_plain[of ns cur] by simp

lemma locate_plain:
  "''..'' \<notin> set ns \<Longrightarrow> locate wd f (PPath [] ns) = Inr q \<Longrightarrow> q = wd @ ns"
  by (simp add: locate_def walk_plain)

lemma os_mkdir_changes:
  assumes "os_mkdir wd (PPath [] (tp # rest)) f = Inr f'" "''..'' \<notin> set (tp # rest)"
  shows "changed_only_below {wd @ [tp]} f f'"
proof -
  from assms(1) obtain q where q: "locate wd f (PPath [] (tp # rest)) = Inr q" "f' = f(q \<mapsto> Dir)"
    by (auto simp: os_mkdir_def split: sum.splits if_splits)
  from locate_plain[OF assms(2) q(1)] have "prefix (wd @ [tp]) q" by (simp add: prefix_def)
  with q(2) show ?thesis by (simp add: changed_only_below_upd)
qed

lemma mkdir_once_changes:
  assumes "mkdir_once ok wd (PPath [] (tp # rest)) f = Inr f'" "''..'' \<notin> set (tp # rest)"
  shows "changed_only_below {wd @ [tp]} f f'"
proof (cases "os_mkdir wd (PPath [] (tp # rest)) f")
  case (Inr g)
  with assms(1) have "f' = g" by (simp add: mkdir_once_def)
  with os_mkdir_changes[OF Inr assms(2)] show ?thesis by simp
next
  case (Inl e)
  with assms(1) have "f' = f" by (cases e) (auto simp: mkdir_once_def split: if_splits)
  then show ?thesis by (simp add: changed_only_below_refl)
qed

lemma mkdir_once_fail_or_changes:
  assumes "''..'' \<notin> set (tp # rest)"
  shows "case mkdir_once ok wd (PPath [] (tp # rest)) f of
           Inl e \<Rightarrow> True | Inr f' \<Rightarrow> changed_only_below {wd @ [tp]} f f'"
  using mkdir_once_changes[OF _ assms] by (auto split: sum.splits)

lemma os_mkdir_Nil: "\<exists>e. os_mkdir wd (PPath a []) f = Inl e"
  by (auto simp: os_mkdir_def split: sum.splits)

lemma mkdir_parents_changes:
  "mkdir_parents ok wd [] ns f = (x, f') \<Longrightarrow> ''..'' \<notin> set ns \<Longrightarrow> (ns = [] \<or> hd ns = tp)
     \<Longrightarrow> changed_only_below {wd @ [tp]} f f'"
proof (induction ok wd "[] :: string" ns f arbitrary: x f' rule: mkdir_parents.induct)
  case (1 exist_ok wd ns f)
  note simps = mkdir_parents.simps[of exist_ok wd "[]" ns f]
  show ?case
  proof (cases "os_mkdir wd (PPath [] ns) f")
    case (Inr g)
    with "1.prems"(1) have fg: "f' = g" by (simp add: simps)
    from Inr os_mkdir_Nil[of wd "[]" f] have "ns \<noteq> []" by auto
    with "1.prems"(3) obtain rest where "ns = tp # rest" by (cases ns) auto
    with Inr "1.prems"(2) fg show ?thesis using os_mkdir_changes by blast
  next
    case (Inl e)
    show ?thesis
    proof (cases "\<exists>m. e = FileNotFoundError m")
      case False
      with Inl "1.prems"(1) have "f' = f"
        by (cases e) (auto simp add: simps split: if_splits)
      then show ?thesis by (simp add: changed_only_below_refl)
    next
      case True
      then obtain m where e: "e = FileNotFoundError m" by blast
      show ?thesis
      proof (cases "ns = []")
        case True
        with Inl e "1.prems"(1)[unfolded simps] have "f' = f" by simp
        then show ?thesis by (simp add: changed_only_below_refl)
      next
        case False
        then obtain n rest where ns: "ns = n # rest" by (cases ns) auto
        with "1.prems"(3) have tp: "n = tp" by simp
        obtain y f1 where rec: "mkdir_parents True wd [] (butlast ns) f = (y, f1)"
          by (cases "mkdir_parents True wd [] (butlast ns) f")
        have nb: "''..'' \<notin> set (butlast ns)" using "1.prems"(2) in_set_butlastD by fastforce
        have hb: "butlast ns = [] \<or> hd (butlast ns) = tp"
          using ns tp by (cases rest) auto
        from "1.hyps"[OF Inl e False rec nb hb] have c1: "changed_only_below {wd @ [tp]} f f1" .
        show ?thesis
        proof (cases y)
          case (Inl e')
          with \<open>os_mkdir wd (PPath [] ns) f = Inl e\<close> e False rec "1.prems"(1) have "f' = f1"
            by (simp add: simps)
          with c1 show ?thesis by simp
        next
          case (Inr u)
          show ?thesis
          proof (cases "mkdir_once exist_ok wd (PPath [] ns) f1")
            case (Inl e2)
            with \<open>os_mkdir wd (PPath [] ns) f = Inl e\<close> e False rec Inr "1.prems"(1) have "f' = f1"
              by (simp add: simps)
            with c1 show ?thesis by simp
          next
            case (Inr f2)
            with \<open>os_mkdir wd (PPath [] ns) f = Inl e\<close> e False rec \<open>y = Inr u\<close> "1.prems"(1)
            have "f' = f2" by (simp add: simps)
            moreover have "changed_only_below {wd @ [tp]} f1 f2"
              using mkdir_once_changes[of exist_ok wd tp rest f1 f2] Inr "1.prems"(2) ns tp by simp
            ultimately show ?thesis using c1 changed_only_below_trans by blast
          qed
        qed
      qed
    qed
  qed
qed

lemma write_text_changes:
  assumes "write_text wd (PPath [] (tp # rest)) c f = Inr f'" "''..'' \<notin> set (tp # rest)"
  shows "changed_only_below {wd @ [tp]} f f'"
proof -
  from assms(1) obtain q where q: "locate wd f (PPath [] (tp # rest)) = Inr q" "f' = f(q \<mapsto> File c)"
    by (auto simp: write_text_def split: sum.splits option.splits node.splits if_splits)
  from locate_plain[OF assms(2) q(1)] have "prefix (wd @ [tp]) q" by (simp add: prefix_def)
  with q(2) show ?thesis by (simp add: changed_only_below_upd)
qed

lemma rmtree_changes:
  assumes "rmtree wd (PPath [] (tp # rest)) f = (x, f')" "''..'' \<notin> set (tp # rest)"
  shows "changed_only_below {wd @ [tp]} f f'"
proof (cases "locate wd f (PPath [] (tp # rest))")
  case (Inl e)
  with assms(1) have "f' = f" by (simp add: rmtree_def)
  then show ?thesis by (simp add: changed_only_below_refl)
next
  case (Inr q)
  from locate_plain[OF assms(2) Inr] have p: "prefix (wd @ [tp]) q" by (simp add: prefix_def)
  have "\<And>y. f' y \<noteq> f y \<Longrightarrow> prefix q y"
    using assms(1) Inr
    by (auto simp: rmtree_def remove_tree_def remove_below_def
             split: option.splits node.splits if_splits)
  with p show ?thesis
    unfolding changed_only_below_def using prefix_order.trans by blast
qed

section \<open>Paths built by the orchestrator\<close>

lemma parse_path_segment:
  assumes "CHR ''/'' \<notin> set s"
  shows "anchor (parse_path s) = [] \<and> set (names (parse_path s)) \<subseteq> {s}"
  using assms by (auto simp: parse_path_def parse_anchor_no_slash split_on_single)

lemma parse_path_indexes: "parse_path ''indexes'' = PPath [] [''indexes'']"
  by (simp add: parse_path_def parse_anchor_def)

lemma parse_path_outputs: "parse_path ''gitingest_outputs'' = PPath [] [''gitingest_outputs'']"
  by (simp add: parse_path_def parse_anchor_def)

lemma parse_path_Local: "parse_path ''Local'' = PPath [] [''Local'']"
  by (simp add: parse_path_def parse_anchor_def)

lemma parse_path_repopath: "parse_path ''repopath.txt'' = PPath [] [''repopath.txt'']"
  by (simp add: parse_path_def parse_anchor_def)

lemma parse_path_chunks: "parse_path ''chunks.json'' = PPath [] [''chunks.json'']"
  by (simp add: parse_path_def parse_anchor_def)

lemma parse_path_graph: "parse_path ''graph.pkl'' = PPath [] [''graph.pkl'']"
  by (simp add: parse_path_def parse_anchor_def)

lemma path_join_segment:
  assumes "CHR ''/'' \<notin> set s"
  shows "path_join (PPath a ns) s = PPath a (ns @ names (parse_path s))"
  using parse_path_segment[OF assms] by (simp add: path_join_def Let_def)

lemma segment_names_plain:
  assumes "CHR ''/'' \<notin> set s" "s \<noteq> ''..''"
  shows "''..'' \<notin> set (names (parse_path s))"
  using parse_path_segment[OF assms(1)] assms(2) by auto

section \<open>Lookups that do not see a change\<close>

lemma walk_agree:
  "''..'' \<notin> set ns \<Longrightarrow> (\<forall>k \<le> length ns. g (cur @ take k ns) = f (cur @ take k ns))
     \<Longrightarrow> walk g cur ns = walk f cur ns"
proof (induction ns arbitrary: cur)
  case Nil
  then show ?case by simp
next
  case (Cons n ns)
  from Cons.prems(2)[rule_format, of 0] have c: "g cur = f cur" by simp
  have "\<forall>k \<le> length ns. g ((cur @ [n]) @ take k ns) = f ((cur @ [n]) @ take k ns)"
  proof (intro allI impI)
    fix k assume "k \<le> length ns"
    then have "Suc k \<le> length (n # ns)" by simp
    from Cons.prems(2)[rule_format, OF this] show "g ((cur @ [n]) @ take k ns) = f ((cur @ [n]) @ take k ns)"
      by simp
  qed
  from Cons.IH[OF _ this] Cons.prems(1) have "walk g (cur @ [n]) ns = walk f (cur @ [n]) ns" by simp
  moreover from Cons.prems(1) have "n \<noteq> ''..''" by auto
  ultimately show ?case using c by (simp split: option.splits node.splits)
qed

lemma path_exists_agree:
  assumes "''..'' \<notin> set ns" "\<forall>k \<le> length ns. g (wd @ take k ns) = f (wd @ take k ns)"
  shows "path_exists wd g (PPath [] ns) = path_exists wd f (PPath [] ns)"
proof -
  have w: "walk g wd ns = walk f wd ns" using walk_agree[OF assms] .
  have e: "g (wd @ ns) = f (wd @ ns)" using assms(2)[rule_format, of "length ns"] by simp
  show ?thesis
  proof (cases "walk f wd ns")
    case (Inl e)
    with w show ?thesis by (simp add: path_exists_def locate_def)
  next
    case (Inr q)
    from walk_plain[OF assms(1) Inr] have "q = wd @ ns" .
    with Inr w e show ?thesis by (simp add: path_exists_def locate_def)
  qed
qed

lemma changed_elsewhere_agree:
  assumes "changed_only_below D f g" "\<forall>d\<in>D. \<exists>a. d = wd @ [a] \<and> a \<noteq> b"
  shows "\<forall>k \<le> length (b # rest). g (wd @ take k (b # rest)) = f (wd @ take k (b # rest))"
proof (intro allI impI)
  fix k assume "k \<le> length (b # rest)"
  show "g (wd @ take k (b # rest)) = f (wd @ take k (b # rest))"
  proof (cases k)
    case 0
    have "g wd = f wd"
    proof (rule ccontr)
      assume "g wd \<noteq> f wd"
      with assms(1)[unfolded changed_only_below_def, rule_format, of wd]
      obtain d where d: "d \<in> D" "prefix d wd" by blast
      from assms(2) d(1) obtain a where "d = wd @ [a]" by blast
      with d(2) have "length (wd @ [a]) \<le> length wd" using prefix_length_le by blast
      then show False by simp
    qed
    with 0 show ?thesis by simp
  next
    case (Suc j)
    then have "prefix (wd @ [b]) (wd @ take k (b # rest))" by simp
    with changed_elsewhere_unchanged[OF assms] show ?thesis by (simp add: unchanged_below_def)
  qed
qed

lemma repo_index_exists_agree:
  assumes "changed_only_below D (files w) (files w1)"
    and "\<forall>d\<in>D. \<exists>a. d = cwd E @ [a] \<and> a \<noteq> ''indexes''"
    and "CHR ''/'' \<notin> set repo" "repo \<noteq> ''..''"
  shows "repo_index_exists E repo ''indexes'' w1 = repo_index_exists E repo ''indexes'' w"
proof -
  let ?ns = "names (parse_path repo)"
  have d: "path_join (parse_path ''indexes'') repo = PPath [] (''indexes'' # ?ns)"
    using path_join_segment[OF assms(3), of "[]" "[''indexes'']"] by (simp add: parse_path_indexes)
  have np: "''..'' \<notin> set ?ns" using segment_names_plain[OF assms(3,4)] .
  have one: "\<And>n. n \<noteq> ''..'' \<Longrightarrow>
      path_exists (cwd E) (files w1) (PPath [] (''indexes'' # ?ns @ [n]))
        = path_exists (cwd E) (files w) (PPath [] (''indexes'' # ?ns @ [n]))"
  proof -
    fix n :: string assume "n \<noteq> ''..''"
    with np have "''..'' \<notin> set (''indexes'' # ?ns @ [n])" by simp
    from path_exists_agree[OF this changed_elsewhere_agree[OF assms(1,2), of "?ns @ [n]"]]
    show "path_exists (cwd E) (files w1) (PPath [] (''indexes'' # ?ns @ [n]))
        = path_exists (cwd E) (files w) (PPath [] (''indexes'' # ?ns @ [n]))" .
  qed
  show ?thesis
    unfolding repo_index_exists_def Let_def d
    by (simp add: path_join_def parse_path_repo_index parse_path_chunks parse_path_graph one)
qed

section \<open>What a run leaves unchanged\<close>

lemma local_name_plain:
  assumes "list_all valid_name wd"
  shows "CHR ''/'' \<notin> set (path_name (resolve wd (parse_path s)))
     \<and> path_name (resolve wd (parse_path s)) \<noteq> ''..''"
proof (cases "path_name (resolve wd (parse_path s)) = []")
  case True
  then show ?thesis by simp
next
  case False
  from resolve_name_valid[OF assms False] show ?thesis by (simp add: valid_name_def)
qed

lemma repo_name_plain:
  assumes "repo_name_of E raw = Some repo" "no_parent_segments raw" "list_all valid_name (cwd E)"
  shows "CHR ''/'' \<notin> set repo \<and> repo \<noteq> ''..''"
proof (cases "is_probable_git_url raw")
  case True
  with assms(1) obtain owner where p: "parse_github_url raw = Inr (owner, repo)"
    by (auto simp: repo_name_of_def split: sum.splits)
  from parse_github_url_segments[OF p] assms(2) p show ?thesis
    by (simp add: no_parent_segments_def)
next
  case False
  with assms(1) have "repo = path_name (resolve (cwd E) (parse_path (normalize_local_path E raw)))"
    by (simp add: repo_name_of_def)
  with local_name_plain[OF assms(3)] show ?thesis by simp
qed

lemma prepare_local_changes:
  assumes "prepare_local E raw w = (x, w')" "list_all valid_name (cwd E)"
  shows "changed_only_below {cwd E @ [''my_repos'']} (files w) (files w')"
proof -
  let ?lp = "normalize_local_path E raw"
  let ?rp = "resolve (cwd E) (parse_path ?lp)"
  let ?repo = "path_name ?rp"
  let ?np = "names (parse_path ?repo)"
  from local_name_plain[OF assms(2), of ?lp]
  have rs: "CHR ''/'' \<notin> set ?repo" and rd: "?repo \<noteq> ''..''" by simp_all
  have np: "''..'' \<notin> set ?np" using segment_names_plain[OF rs rd] .
  have dir: "path_join (path_join (parse_path ''my_repos'') ''Local'') ?repo
               = PPath [] (''my_repos'' # ''Local'' # ?np)"
    using path_join_segment[OF rs, of "[]" "[''my_repos'', ''Local'']"]
    by (simp add: parse_path_my_repos path_join_def parse_path_Local)
  have mark: "path_join (PPath [] (''my_repos'' # ''Local'' # ?np)) ''repopath.txt''
               = PPath [] (''my_repos'' # (''Local'' # ?np @ [''repopath.txt'']))"
    by (simp add: path_join_def parse_path_repopath)
  show ?thesis
  proof (cases "os_path_isdir (cwd E) (files w) ?lp")
    case False
    with assms(1) have "w' = w" by (simp add: prepare_local_def Let_def)
    then show ?thesis by (simp add: changed_only_below_refl)
  next
    case True
    obtain m f1 where mk: "mkdir_parents True (cwd E) [] (''my_repos'' # ''Local'' # ?np) (files w) = (m, f1)"
      by (cases "mkdir_parents True (cwd E) [] (''my_repos'' # ''Local'' # ?np) (files w)")
    have c1: "changed_only_below {cwd E @ [''my_repos'']} (files w) f1"
      using mkdir_parents_changes[OF mk, of "''my_repos''"] np by simp
    show ?thesis
    proof (cases m)
      case (Inl e)
      with assms(1) True mk have "files w' = f1"
        by (auto simp add: prepare_local_def Let_def dir)
      with c1 show ?thesis by simp
    next
      case (Inr u)
      show ?thesis
      proof (cases "write_text (cwd E) (PPath [] (''my_repos'' # (''Local'' # ?np @ [''repopath.txt''])))
                      (path_str ?rp) f1")
        case (Inl e)
        with assms(1) True mk Inr have "files w' = f1"
          by (auto simp add: prepare_local_def Let_def dir mark)
        with c1 show ?thesis by simp
      next
        case (Inr f2)
        with assms(1) True mk \<open>m = Inr u\<close> have "files w' = f2"
          by (auto simp add: prepare_local_def Let_def dir mark log_event_def)
        moreover have "changed_only_below {cwd E @ [''my_repos'']} f1 f2"
          using write_text_changes[OF Inr] np by simp
        ultimately show ?thesis using c1 changed_only_below_trans by blast
      qed
    qed
  qed
qed

lemma prepare_input_changes:
  assumes "prepare_input E raw w = (x, w')" "list_all valid_name (cwd E)"
  shows "changed_only_below {cwd E @ [''my_repos'']} (files w) (files w')"
proof (cases "is_probable_git_url raw")
  case True
  with assms(1) have "w' = w" by (auto simp: prepare_input_url split: sum.splits)
  then show ?thesis by (simp add: changed_only_below_refl)
next
  case False
  with assms show ?thesis using prepare_local_changes by (simp add: prepare_input_local)
qed

lemma invoke_gitingest_keeps:
  assumes "invoke_gitingest self E eff out w = (res, w')" "tools_keep E d"
  shows "unchanged_below d (files w) (files w')"
proof -
  let ?t = "gitingest_tool E (gitingest_cmd self E eff out w) (gitingest_env_token self E eff w) (files w)"
  obtain oc f' where t: "?t = (oc, f')" by (cases ?t)
  have "files w' = f'"
    using assms(1) t
    by (cases oc; cases "read_text (cwd E) out f'")
       (auto simp add: invoke_gitingest_def Let_def log_event_def split: if_splits)
  moreover have "unchanged_below d (files w) (snd ?t)"
    using assms(2) by (simp add: tools_keep_def)
  ultimately show ?thesis using t by simp
qed

lemma run_git_clone_keeps:
  assumes "run_git_clone self E url rp w = (c, w')" "tools_keep E d"
  shows "unchanged_below d (files w) (files w')"
proof -
  let ?cmd = "[''git'', ''clone'', ''--depth'', ''1'', clone_url self url, path_str rp]"
  obtain oc f' where t: "git_tool E ?cmd (files w) = (oc, f')"
    by (cases "git_tool E ?cmd (files w)")
  have "files w' = f'"
    using assms(1) t
    by (cases oc) (auto simp add: run_git_clone_def Let_def log_event_def split: if_splits)
  moreover have "unchanged_below d (files w) (snd (git_tool E ?cmd (files w)))"
    using assms(2) by (simp add: tools_keep_def)
  ultimately show ?thesis using t by simp
qed

lemma my_repos_changes_keep:
  assumes "changed_only_below {wd @ [''my_repos'']} f g" "b \<noteq> ''my_repos''"
  shows "unchanged_below (wd @ [b]) f g"
  using changed_elsewhere_unchanged[OF assms(1), of wd b] assms(2) by auto

lemma clone_repo_keeps:
  assumes "clone_repo self E url ''my_repos'' fresh w = (c, w')"
    and "no_parent_segments url"
    and "tools_keep E (cwd E @ [b])" "b \<noteq> ''my_repos''"
  shows "unchanged_below (cwd E @ [b]) (files w) (files w')"
proof (cases "parse_github_url url")
  case (Inl e)
  with assms(1) have "w' = w" by (simp add: clone_repo_def)
  then show ?thesis by (simp add: unchanged_below_refl)
next
  case (Inr pr)
  obtain owner repo where pr: "pr = (owner, repo)" by (cases pr)
  with Inr have parse: "parse_github_url url = Inr (owner, repo)" by simp
  from parse_github_url_segments[OF parse] assms(2) parse
  have seg: "CHR ''/'' \<notin> set owner" "CHR ''/'' \<notin> set repo" "owner \<noteq> ''..''" "repo \<noteq> ''..''"
    by (simp_all add: no_parent_segments_def)
  let ?ns = "names (parse_path owner) @ names (parse_path repo)"
  let ?rp = "PPath [] (''my_repos'' # ?ns)"
  have rp: "path_join (path_join (parse_path ''my_repos'') owner) repo = ?rp"
    using path_join_segment[OF seg(1), of "[]" "[''my_repos'']"]
          path_join_segment[OF seg(2), of "[]" "''my_repos'' # names (parse_path owner)"]
    by (simp add: parse_path_my_repos)
  have np: "''..'' \<notin> set (''my_repos'' # ?ns)"
    using segment_names_plain[OF seg(1,3)] segment_names_plain[OF seg(2,4)] by simp
  define r1w1 where "r1w1 =
     (if fresh \<and> path_exists (cwd E) (files w) ?rp
      then (let (r, f') = rmtree (cwd E) ?rp (files w)
            in (r, log_event (EvRmtree (path_str ?rp)) (w\<lparr>files := f'\<rparr>)))
      else (Inr (), w))"
  obtain r1 w1 where rw: "r1w1 = (r1, w1)" by (cases r1w1)
  have c1: "changed_only_below {cwd E @ [''my_repos'']} (files w) (files w1)"
  proof (cases "fresh \<and> path_exists (cwd E) (files w) ?rp")
    case False
    with rw have "w1 = w" by (simp add: r1w1_def)
    then show ?thesis by (simp add: changed_only_below_refl)
  next
    case True
    obtain r f' where rm: "rmtree (cwd E) ?rp (files w) = (r, f')"
      by (cases "rmtree (cwd E) ?rp (files w)")
    with True rw have "files w1 = f'" by (auto simp: r1w1_def log_event_def)
    with rmtree_changes[OF rm np] show ?thesis by simp
  qed
  have k1: "unchanged_below (cwd E @ [b]) (files w) (files w1)"
    using my_repos_changes_keep[OF c1 assms(4)] .
  have eq: "(case r1 of
                Inl e \<Rightarrow> (Inl e, w1)
              | Inr u \<Rightarrow>
                  (case mkdir_parents True (cwd E) (anchor (path_parent ?rp))
                          (names (path_parent ?rp)) (files w1) of
                     (Inl e, f2) \<Rightarrow> (Inl e, w1\<lparr>files := f2\<rparr>)
                   | (Inr u2, f2) \<Rightarrow> run_git_clone self E url ?rp (w1\<lparr>files := f2\<rparr>))) = (c, w')"
    using assms(1) rw unfolding clone_repo_def parse sum.case prod.case Let_def rp r1w1_def
    by simp
  show ?thesis
  proof (cases r1)
    case (Inl e)
    with eq have "w' = w1" by simp
    with k1 show ?thesis by simp
  next
    case (Inr u)
    obtain m f2 where mk: "mkdir_parents True (cwd E) [] (butlast (''my_repos'' # ?ns)) (files w1) = (m, f2)"
      by (cases "mkdir_parents True (cwd E) [] (butlast (''my_repos'' # ?ns)) (files w1)")
    have nb: "''..'' \<notin> set (butlast (''my_repos'' # ?ns))"
      using np in_set_butlastD by fastforce
    have hb: "butlast (''my_repos'' # ?ns) = [] \<or> hd (butlast (''my_repos'' # ?ns)) = ''my_repos''"
      by (cases ?ns) auto
    from mkdir_parents_changes[OF mk nb hb]
    have k2: "unchanged_below (cwd E @ [b]) (files w1) f2"
      using my_repos_changes_keep[OF _ assms(4)] by blast
    have mk': "mkdir_parents True (cwd E) (anchor (path_parent ?rp)) (names (path_parent ?rp)) (files w1) = (m, f2)"
      using mk by (simp add: path_parent_def)
    show ?thesis
    proof (cases m)
      case (Inl e)
      with eq Inr mk' have "files w' = f2" by auto
      with k1 k2 show ?thesis using unchanged_below_trans by metis
    next
      case (Inr u2)
      with eq \<open>r1 = Inr u\<close> mk' have "run_git_clone self E url ?rp (w1\<lparr>files := f2\<rparr>) = (c, w')"
        by simp
      from run_git_clone_keeps[OF this assms(3)]
      have "unchanged_below (cwd E @ [b]) f2 (files w')" by simp
      with k1 k2 show ?thesis using unchanged_below_trans by metis
    qed
  qed
qed

lemma ingest_and_clone_keeps:
  assumes "ingest_and_clone self E od clone is_url owner repo eff w = (res, w')"
    and "is_url \<longrightarrow> no_parent_segments eff"
    and "tools_keep E (cwd E @ [b])" "b \<noteq> ''my_repos''"
  shows "unchanged_below (cwd E @ [b]) (files w) (files w')"
proof -
  define out where "out = od @ ''/'' @ owner @ ''_'' @ repo @ ''_'' @ now_stamp E @ ''.txt''"
  from assms(1) out_def show ?thesis
  proof (cases rule: ingest_and_clone_elim)
    case tool_fail
    from invoke_gitingest_keeps[OF tool_fail(1) assms(3)] show ?thesis .
  next
    case (no_clone r1)
    from invoke_gitingest_keeps[OF no_clone(1) assms(3)] show ?thesis .
  next
    case (clone_ok r1 w1 p)
    from invoke_gitingest_keeps[OF clone_ok(1) assms(3)]
         clone_repo_keeps[OF clone_ok(6) _ assms(3,4)] clone_ok(4) assms(2)
    show ?thesis using unchanged_below_trans by blast
  next
    case (clone_fail r1 w1 e)
    from invoke_gitingest_keeps[OF clone_fail(1) assms(3)]
         clone_repo_keeps[OF clone_fail(6) _ assms(3,4)] clone_fail(4) assms(2)
    show ?thesis using unchanged_below_trans by blast
  qed
qed

lemma invalidate_index_noop:
  assumes "\<not> repo_index_exists E repo idir w"
  shows "invalidate_index E repo idir w = (Inr (), w)"
  using assms by (simp add: invalidate_index_def)

section \<open>A partial index\<close>

lemma outputs_changes_keep:
  assumes "changed_only_below {wd @ [''gitingest_outputs'']} f g"
  shows "unchanged_below (wd @ [''indexes'']) f g"
  using changed_elsewhere_unchanged[OF assms, of wd "''indexes''"] by auto

lemma my_repos_keep_indexes:
  assumes "changed_only_below {wd @ [''my_repos'']} f g"
  shows "unchanged_below (wd @ [''indexes'']) f g"
  using my_repos_changes_keep[OF assms, of "''indexes''"] by simp

text \<open>
  C10.  With the default output and index directories, a working directory whose names
  are proper, programs that leave the \<open>indexes\<close> directory alone, and a reference whose
  segments are not \<open>..\<close>: if one of the three index files of the repository name is
  missing when \<open>ingest_repo\<close> is called, then nothing at or below \<open>indexes\<close> is changed
  by the run; in particular the index directory of that name, if it exists, and
  everything in it is as before.
\<close>

theorem ingest_repo_keeps_partial_index:
  assumes "repo_name_of E (py_strip inp) = Some repo"
    and "\<not> repo_index_exists E repo default_indexes_dir w"
    and "ingest_repo self E inp default_output_dir clone default_indexes_dir w = (r, w')"
    and "no_parent_segments (py_strip inp)"
    and "tools_keep E (cwd E @ [''indexes''])"
    and "list_all valid_name (cwd E)"
  shows "unchanged_below (cwd E @ [''indexes'']) (files w) (files w')
     \<and> (\<forall>q. locate (cwd E) (files w) (index_dir default_indexes_dir repo) = Inr q
            \<longrightarrow> unchanged_below q (files w) (files w'))"
proof -
  let ?I = "cwd E @ [''indexes'']"
  from repo_name_plain[OF assms(1,4,6)]
  have rs: "CHR ''/'' \<notin> set repo" and rd: "repo \<noteq> ''..''" by simp_all
  have od: "parse_path default_output_dir = PPath [] [''gitingest_outputs'']"
    by (simp add: default_output_dir_def parse_path_outputs)
  have nex: "\<not> repo_index_exists E repo ''indexes'' w"
    using assms(2) by (simp add: default_indexes_dir_def)
  have mk: "\<And>f0. mkdir_once True (cwd E) (parse_path default_output_dir) (files w) = Inr f0
      \<Longrightarrow> changed_only_below {cwd E @ [''gitingest_outputs'']} (files w) f0"
    unfolding od using mkdir_once_changes[of True "cwd E" "''gitingest_outputs''" "[]"] by simp
  have prep: "\<And>f0 x w1. mkdir_once True (cwd E) (parse_path default_output_dir) (files w) = Inr f0
      \<Longrightarrow> prepare_input E (py_strip inp) (w\<lparr>files := f0\<rparr>) = (x, w1)
      \<Longrightarrow> changed_only_below {cwd E @ [''gitingest_outputs''], cwd E @ [''my_repos'']} (files w) (files w1)
          \<and> unchanged_below ?I (files w) (files w1)"
  proof -
    fix f0 x w1
    assume m: "mkdir_once True (cwd E) (parse_path default_output_dir) (files w) = Inr f0"
      and p: "prepare_input E (py_strip inp) (w\<lparr>files := f0\<rparr>) = (x, w1)"
    from prepare_input_changes[OF p assms(6)]
    have c2: "changed_only_below {cwd E @ [''my_repos'']} f0 (files w1)" by simp
    have "changed_only_below {cwd E @ [''gitingest_outputs''], cwd E @ [''my_repos'']} (files w) (files w1)"
      using changed_only_below_mono[OF mk[OF m], of "{cwd E @ [''gitingest_outputs''], cwd E @ [''my_repos'']}"]
            changed_only_below_mono[OF c2, of "{cwd E @ [''gitingest_outputs''], cwd E @ [''my_repos'']}"]
            changed_only_below_trans
      by blast
    moreover have "unchanged_below ?I (files w) (files w1)"
      using outputs_changes_keep[OF mk[OF m]] my_repos_keep_indexes[OF c2] unchanged_below_trans
      by blast
    ultimately show "changed_only_below {cwd E @ [''gitingest_outputs''], cwd E @ [''my_repos'']} (files w) (files w1)
          \<and> unchanged_below ?I (files w) (files w1)" by simp
  qed
  have main: "unchanged_below ?I (files w) (files w')"
    using assms(3)
  proof (cases rule: ingest_repo_elim)
    case (mkdir_fail e)
    then show ?thesis by (simp add: unchanged_below_refl)
  next
    case (empty f0)
    with outputs_changes_keep[OF mk[OF empty(1)]] show ?thesis by simp
  next
    case (prep_raise f0 e)
    from prep[OF prep_raise(1,3)] show ?thesis by simp
  next
    case (prep_fail f0 res)
    from prep[OF prep_fail(1,3)] show ?thesis by simp
  next
    case (inval_raise f0 owner rn eff w1 e)
    from prepare_input_name[OF inval_raise(3)] assms(1) have rn: "rn = repo" by simp
    from prep[OF inval_raise(1,3)]
    have c: "changed_only_below {cwd E @ [''gitingest_outputs''], cwd E @ [''my_repos'']} (files w) (files w1)"
      by simp
    have "repo_index_exists E repo ''indexes'' w1 = repo_index_exists E repo ''indexes'' w"
      by (rule repo_index_exists_agree[OF c _ rs rd]) auto
    with nex have "\<not> repo_index_exists E rn default_indexes_dir w1"
      by (simp add: rn default_indexes_dir_def)
    from invalidate_index_noop[OF this] inval_raise(4) show ?thesis by simp
  next
    case (run f0 owner rn eff w1 w2 res)
    from prepare_input_name[OF run(3)] assms(1) have rn: "rn = repo" by simp
    from prep[OF run(1,3)]
    have c: "changed_only_below {cwd E @ [''gitingest_outputs''], cwd E @ [''my_repos'']} (files w) (files w1)"
      and k1: "unchanged_below ?I (files w) (files w1)"
      by simp_all
    have "repo_index_exists E repo ''indexes'' w1 = repo_index_exists E repo ''indexes'' w"
      by (rule repo_index_exists_agree[OF c _ rs rd]) auto
    with nex have "\<not> repo_index_exists E rn default_indexes_dir w1"
      by (simp add: rn default_indexes_dir_def)
    from invalidate_index_noop[OF this] run(4) have w2: "w2 = w1" by simp
    have e: "is_probable_git_url (py_strip inp) \<longrightarrow> no_parent_segments eff"
    proof
      assume u: "is_probable_git_url (py_strip inp)"
      with run(3) have "eff = py_strip inp"
        by (auto simp: prepare_input_url split: sum.splits)
      with assms(4) show "no_parent_segments eff" by simp
    qed
    from ingest_and_clone_keeps[OF run(5) e assms(5)]
    have "unchanged_below ?I (files w2) (files w')" by simp
    with k1 w2 show ?thesis using unchanged_below_trans by blast
  qed
  have sub: "\<forall>q. locate (cwd E) (files w) (index_dir default_indexes_dir repo) = Inr q
            \<longrightarrow> unchanged_below q (files w) (files w')"
  proof (intro allI impI)
    fix q assume l: "locate (cwd E) (files w) (index_dir default_indexes_dir repo) = Inr q"
    have d: "index_dir default_indexes_dir repo = PPath [] (''indexes'' # names (parse_path repo))"
      using path_join_segment[OF rs, of "[]" "[''indexes'']"]
      by (simp add: index_dir_def default_indexes_dir_def parse_path_indexes)
    have "''..'' \<notin> set (''indexes'' # names (parse_path repo))"
      using segment_names_plain[OF rs rd] by simp
    from locate_plain[OF this l[unfolded d]] have "prefix ?I q" by simp
    from unchanged_below_sub[OF main this] show "unchanged_below q (files w) (files w')" .
  qed
  from main sub show ?thesis by simp
qed

lemma guarded_env_keeps: "tools_keep guarded_env [''w'', ''indexes'']"
  unfolding tools_keep_def unchanged_below_def
  by (auto simp: guarded_env_def demo_env_def stub_gitingest_guarded_def stub_git_ok_def
           split: sum.splits)

theorem ingest_repo_keeps_partial_index_witness:
  "files (snd (ingest_repo demo_self guarded_env ''https://github.com/o/indexes''
                 default_output_dir True default_indexes_dir partial_world))
     [''w'', ''indexes'', ''indexes'', ''chunks.json''] = Some (File ''c'')"
proof -
  let ?run = "ingest_repo demo_self guarded_env ''https://github.com/o/indexes''
                 default_output_dir True default_indexes_dir partial_world"
  have n: "repo_name_of guarded_env (py_strip ''https://github.com/o/indexes'') = Some ''indexes''"
    by (simp add: repo_name_of_def eval_defs)
  have x: "\<not> repo_index_exists guarded_env ''indexes'' default_indexes_dir partial_world"
    by (simp add: eval_defs)
  have p: "no_parent_segments (py_strip ''https://github.com/o/indexes'')"
    by (simp add: no_parent_segments_def eval_defs)
  have k: "tools_keep guarded_env (cwd guarded_env @ [''indexes''])"
    using guarded_env_keeps by (simp add: guarded_env_def demo_env_def)
  have v: "list_all valid_name (cwd guarded_env)"
    by (simp add: guarded_env_def demo_env_def valid_name_def)
  have c: "cwd guarded_env @ [''indexes''] = [''w'', ''indexes'']"
    by (simp add: guarded_env_def demo_env_def)
  have b: "files partial_world [''w'', ''indexes'', ''indexes'', ''chunks.json''] = Some (File ''c'')"
    by (simp add: partial_world_def partial_files_def)
  from ingest_repo_keeps_partial_index[OF n x prod.collapse[symmetric] p k v]
  have "unchanged_below [''w'', ''indexes''] (files partial_world) (files (snd ?run))"
    unfolding c by simp
  then have "files (snd ?run) [''w'', ''indexes'', ''indexes'', ''chunks.json'']
      = files partial_world [''w'', ''indexes'', ''indexes'', ''chunks.json'']"
    by (simp add: unchanged_below_def)
  with b show ?thesis by simp
qed

text \<open>
  With the owner segment \<open>..\<close> the clone destination \<open>my_repos/../indexes\<close> is the
  \<open>indexes\<close> directory itself: the removal of the old clone takes the partial index
  with it.
\<close>

theorem ingest_repo_parent_owner_counterexample:
  "repo_name_of guarded_env (py_strip ''https://github.com/../indexes'') = Some ''indexes''
   \<and> \<not> repo_index_exists guarded_env ''indexes'' default_indexes_dir partial_world
   \<and> files partial_world [''w'', ''indexes'', ''indexes'', ''chunks.json''] = Some (File ''c'')
   \<and> files (snd (ingest_repo demo_self guarded_env ''https://github.com/../indexes''
                    default_output_dir True default_indexes_dir partial_world))
        [''w'', ''indexes'', ''indexes'', ''chunks.json''] = None
   \<and> files (snd (ingest_repo demo_self guarded_env ''https://github.com/../indexes''
                    default_output_dir True default_indexes_dir partial_world))
        [''w'', ''indexes'', ''indexes''] = None"
  by (simp add: repo_name_of_def eval_defs)

section \<open>The marker file of a local repository\<close>

text \<open>
  One invocation of the ingestion tool: the program is given the file system of the
  world in which it is invoked, and leaves the file system of the world that results.
\<close>

lemma invoke_gitingest_run:
  assumes "invoke_gitingest self E eff out w = (res, w')"
  shows "\<exists>cmd tok oc. trace w' = trace w @ [EvGitingest cmd tok oc]
           \<and> gitingest_tool E cmd tok (files w) = (oc, files w')"
proof -
  obtain oc f' where t: "gitingest_tool E (gitingest_cmd self E eff out w)
      (gitingest_env_token self E eff w) (files w) = (oc, f')"
    by (cases "gitingest_tool E (gitingest_cmd self E eff out w) (gitingest_env_token self E eff w) (files w)")
  have "trace w' = trace w @ [EvGitingest (gitingest_cmd self E eff out w)
      (gitingest_env_token self E eff w) oc] \<and> files w' = f'"
    using assms t
    by (cases oc; cases "read_text (cwd E) out f'")
       (auto simp add: invoke_gitingest_def Let_def log_event_def split: if_splits)
  with t show ?thesis by blast
qed

text \<open>The invalidation of an index under \<open>indexes\<close> changes nothing outside \<open>indexes\<close>.\<close>

lemma invalidate_index_changes:
  assumes "invalidate_index E repo ''indexes'' w = (x, w')"
    and "CHR ''/'' \<notin> set repo" "repo \<noteq> ''..''"
  shows "changed_only_below {cwd E @ [''indexes'']} (files w) (files w')"
proof -
  let ?np = "names (parse_path repo)"
  have np: "''..'' \<notin> set ?np" using segment_names_plain[OF assms(2,3)] .
  have dir: "path_join (parse_path ''indexes'') repo = PPath [] (''indexes'' # ?np)"
    using path_join_segment[OF assms(2), of "[]" "[''indexes'']"]
    by (simp add: parse_path_indexes)
  show ?thesis
  proof (cases "repo_index_exists E repo ''indexes'' w")
    case False
    with assms(1) have "w' = w" by (simp add: invalidate_index_def)
    then show ?thesis by (simp add: changed_only_below_refl)
  next
    case True
    note ex = this
    show ?thesis
    proof (cases "path_exists (cwd E) (files w) (PPath [] (''indexes'' # ?np))")
      case False
      with assms(1) ex have "w' = w"
        by (simp add: invalidate_index_def delete_repo_index_def dir Let_def)
      then show ?thesis by (simp add: changed_only_below_refl)
    next
      case True
      obtain r f' where rm: "rmtree (cwd E) (PPath [] (''indexes'' # ?np)) (files w) = (r, f')"
        by (cases "rmtree (cwd E) (PPath [] (''indexes'' # ?np)) (files w)")
      with assms(1) ex True have "files w' = f'"
        by (cases r) (auto simp: invalidate_index_def delete_repo_index_def dir Let_def log_event_def)
      with rmtree_changes[OF rm] np show ?thesis by simp
    qed
  qed
qed

text \<open>A path without \<open>..\<close> leads to the same entry when nothing on its way has changed.\<close>

lemma located_kept:
  assumes "changed_only_below D f g" "\<forall>d\<in>D. \<exists>a. d = wd @ [a] \<and> a \<noteq> b"
    and "''..'' \<notin> set (b # rest)" "locate wd f (PPath [] (b # rest)) = Inr q"
  shows "locate wd g (PPath [] (b # rest)) = Inr q \<and> g q = f q"
proof -
  from changed_elsewhere_agree[OF assms(1,2), of rest]
  have ag: "\<forall>k \<le> length (b # rest). g (wd @ take k (b # rest)) = f (wd @ take k (b # rest))" .
  from walk_agree[OF assms(3) ag] have "walk g wd (b # rest) = walk f wd (b # rest)" .
  with assms(4) have l: "locate wd g (PPath [] (b # rest)) = Inr q" by (simp add: locate_def)
  from locate_plain[OF assms(3) assms(4)] have q: "q = wd @ (b # rest)" .
  from ag[rule_format, of "length (b # rest)"] have "g (wd @ (b # rest)) = f (wd @ (b # rest))"
    by simp
  with l q show ?thesis by simp
qed

lemma marker_file_names:
  assumes "CHR ''/'' \<notin> set repo"
  shows "marker_file repo
           = PPath [] (''my_repos'' # (''Local'' # names (parse_path repo) @ [''repopath.txt'']))"
  using path_join_segment[OF assms, of "[]" "[''my_repos'', ''Local'']"]
  by (simp add: marker_file_def parse_path_my_repos path_join_def parse_path_Local
        parse_path_repopath)

text \<open>
  C3.  Let the stripped input be classified as local, let its normalized path \<open>lp\<close> be
  an existing directory when \<open>ingest_repo\<close> is called, and let \<open>rp\<close> be the resolved path.
  Then \<open>rp\<close> is the absolute location of that directory.  If \<open>ingest_repo\<close> returns a
  record, then the first effect of the run is the writing of the marker file with
  content \<open>str(rp)\<close>, and the file holds that content when the local branch ends; the
  invalidation of the index follows, and in the world \<open>w2\<close> that it leaves the
  ingestion tool is invoked, which is the last effect of the run; the input argument
  of that invocation is \<open>str(rp)\<close>, and with the default index directory the marker
  file with its content is in the file system that the tool is given.  The marker file
  is \<open>my_repos/Local/{repo}/repopath.txt\<close>, \<open>repo\<close> being the last name of \<open>rp\<close> (for the
  root directory, which has no name, pathlib prints \<open>my_repos/Local/repopath.txt\<close>).
\<close>

theorem ingest_repo_local_marker:
  assumes "py_strip inp \<noteq> []"
    and "\<not> is_probable_git_url (py_strip inp)"
    and "lp = normalize_local_path E (py_strip inp)"
    and "rp = resolve (cwd E) (parse_path lp)"
    and "os_path_isdir (cwd E) (files w) lp"
    and "ingest_repo self E inp output_dir clone indexes_dir w = (Inr res, w')"
    and "trace w = []"
    and "list_all valid_name (cwd E)"
  shows "\<exists>f0 w1 w2 q mid cmd tok oc.
           locate (cwd E) (files w) (parse_path lp) = Inr (names rp)
         \<and> files w (names rp) = Some Dir
         \<and> mkdir_once True (cwd E) (parse_path output_dir) (files w) = Inr f0
         \<and> prepare_local E (py_strip inp) (w\<lparr>files := f0\<rparr>)
             = (Inr (Inr (''Local'', path_name rp, path_str rp)), w1)
         \<and> locate (cwd E) (files w1) (marker_file (path_name rp)) = Inr q
         \<and> files w1 q = Some (File (path_str rp))
         \<and> invalidate_index E (path_name rp) indexes_dir w1 = (Inr (), w2)
         \<and> gitingest_tool E cmd tok (files w2) = (oc, files w')
         \<and> (indexes_dir = default_indexes_dir \<longrightarrow>
              locate (cwd E) (files w2) (marker_file (path_name rp)) = Inr q
              \<and> files w2 q = Some (File (path_str rp)))
         \<and> trace w' = EvWrite (path_str (marker_file (path_name rp))) (path_str rp)
                         # mid @ [EvGitingest cmd tok oc]
         \<and> (mid = [] \<or> (\<exists>p. mid = [EvRmtree p]))
         \<and> cmd ! 1 = path_str rp
         \<and> (path_name rp \<noteq> [] \<longrightarrow>
              path_str (marker_file (path_name rp))
                = ''my_repos/Local/'' @ path_name rp @ ''/repopath.txt'')"
proof -
  from assms(5) have d: "path_is_dir (cwd E) (files w) (parse_path lp)"
    by (simp add: os_path_isdir_def)
  from path_is_dir_resolve[OF d] assms(4)
  have l: "locate (cwd E) (files w) (parse_path lp) = Inr (names rp)"
       "files w (names rp) = Some Dir"
    by simp_all
  have lit: "path_name rp \<noteq> [] \<longrightarrow>
      path_str (marker_file (path_name rp)) = ''my_repos/Local/'' @ path_name rp @ ''/repopath.txt''"
    using resolve_name_valid[OF assms(8), of lp] marker_file_str[of "path_name rp"] assms(4)
    by blast
  from local_name_plain[OF assms(8), of lp] assms(4)
  have rs: "CHR ''/'' \<notin> set (path_name rp)" and rd: "path_name rp \<noteq> ''..''" by simp_all
  from assms(2,1,6,3,4) show ?thesis
  proof (cases rule: ingest_repo_local_run)
    case (stopped e)
    then show ?thesis by simp
  next
    case (not_found f0)
    from os_path_isdir_grows[OF mkdir_once_grows[OF not_found(1)] assms(5)] not_found(2)
    show ?thesis by simp
  next
    case (ran f0 w1 pre cmd tok oc res')
    from ran(4) obtain q where q: "locate (cwd E) (files w1) (marker_file (path_name rp)) = Inr q"
      "files w1 q = Some (File (path_str rp))" by blast
    have t: "trace w' = EvWrite (path_str (marker_file (path_name rp))) (path_str rp)
                         # pre @ [EvGitingest cmd tok oc]"
      using ran(6,10) assms(7) by simp
    have m: "pre = [] \<or> (\<exists>p. pre = [EvRmtree p])" using ran(11) by blast
    from assms(6) obtain w2 where
      inv: "invalidate_index E (path_name rp) indexes_dir w1 = (Inr (), w2)"
      and tool: "gitingest_tool E cmd tok (files w2) = (oc, files w')"
    proof (cases rule: ingest_repo_elim)
      case (mkdir_fail e)
      then show ?thesis by simp
    next
      case (empty f0')
      with assms(1) show ?thesis by simp
    next
      case (prep_raise f0' e)
      then show ?thesis by simp
    next
      case (prep_fail f0' r0)
      with ran(1,3) show ?thesis by (simp add: prepare_input_local[OF assms(2)])
    next
      case (inval_raise f0' owner repo eff w1' e)
      then show ?thesis by simp
    next
      case (run f0' owner repo eff w1' w2 r0)
      from run(1,3) ran(1,3) have same: "repo = path_name rp" "w1' = w1" "owner = ''Local''"
        by (simp_all add: prepare_input_local[OF assms(2)])
      define out where "out = output_dir @ ''/'' @ owner @ ''_'' @ repo @ ''_'' @ now_stamp E @ ''.txt''"
      from run(5) out_def obtain r1 where iv: "invoke_gitingest self E eff out w2 = (r1, w')"
      proof (cases rule: ingest_and_clone_elim)
        case tool_fail
        then show ?thesis using that by blast
      next
        case (no_clone r1)
        then show ?thesis using that by blast
      next
        case (clone_ok r1 w3 p)
        with assms(2) show ?thesis by simp
      next
        case (clone_fail r1 w3 e)
        with assms(2) show ?thesis by simp
      qed
      from invoke_gitingest_run[OF iv] obtain cmd' tok' oc' where
        c: "trace w' = trace w2 @ [EvGitingest cmd' tok' oc']"
           "gitingest_tool E cmd' tok' (files w2) = (oc', files w')"
        by blast
      from c(1) ran(10) have "trace w2 @ [EvGitingest cmd' tok' oc'] = (trace w1 @ pre) @ [EvGitingest cmd tok oc]"
        by simp
      then have "EvGitingest cmd' tok' oc' = EvGitingest cmd tok oc"
        by (simp only: append1_eq_conv)
      with c(2) have "gitingest_tool E cmd tok (files w2) = (oc, files w')" by simp
      with run(4) same show ?thesis using that by simp
    qed
    have keep: "indexes_dir = default_indexes_dir \<longrightarrow>
              locate (cwd E) (files w2) (marker_file (path_name rp)) = Inr q
              \<and> files w2 q = Some (File (path_str rp))"
    proof
      assume "indexes_dir = default_indexes_dir"
      with inv have "invalidate_index E (path_name rp) ''indexes'' w1 = (Inr (), w2)"
        by (simp add: default_indexes_dir_def)
      from invalidate_index_changes[OF this rs rd]
      have co: "changed_only_below {cwd E @ [''indexes'']} (files w1) (files w2)" .
      let ?rest = "''Local'' # names (parse_path (path_name rp)) @ [''repopath.txt'']"
      have mf: "marker_file (path_name rp) = PPath [] (''my_repos'' # ?rest)"
        using marker_file_names[OF rs] .
      have pl: "''..'' \<notin> set (''my_repos'' # ?rest)"
        using segment_names_plain[OF rs rd] by simp
      have "locate (cwd E) (files w2) (PPath [] (''my_repos'' # ?rest)) = Inr q
              \<and> files w2 q = files w1 q"
      proof (rule located_kept[OF co _ pl])
        show "\<forall>d\<in>{cwd E @ [''indexes'']}. \<exists>a. d = cwd E @ [a] \<and> a \<noteq> ''my_repos''" by simp
        show "locate (cwd E) (files w1) (PPath [] (''my_repos'' # ?rest)) = Inr q"
          using q(1) mf by simp
      qed
      with q(2) mf show "locate (cwd E) (files w2) (marker_file (path_name rp)) = Inr q
              \<and> files w2 q = Some (File (path_str rp))" by simp
    qed
    show ?thesis
      using l ran(1,3) q inv tool keep t m ran(12) lit by blast
  qed
qed

theorem ingest_repo_local_marker_witness:
  "\<exists>mid cmd tok oc.
     trace (snd (ingest_repo demo_self ok_env ''proj'' default_output_dir True
                   default_indexes_dir demo_world))
       = EvWrite ''my_repos/Local/proj/repopath.txt'' ''/w/proj'' # mid @ [EvGitingest cmd tok oc]
     \<and> cmd ! 1 = ''/w/proj''"
proof -
  let ?run = "ingest_repo demo_self ok_env ''proj'' default_output_dir True default_indexes_dir demo_world"
  let ?res = "(ingested ''/w/proj'')\<lparr>output_file := Some ''gitingest_outputs/Local_proj_20240101_000000.txt''\<rparr>"
  have "fst ?run = Inr ?res" by (simp add: eval_defs)
  then have r: "?run = (Inr ?res, snd ?run)" by (metis prod.collapse)
  have s: "py_strip ''proj'' \<noteq> []" by (simp add: string_defs)
  have u: "\<not> is_probable_git_url (py_strip ''proj'')" by (simp add: eval_defs)
  have n: "''proj'' = normalize_local_path ok_env (py_strip ''proj'')" by (simp add: eval_defs)
  have p: "PPath ''/'' [''w'', ''proj''] = resolve (cwd ok_env) (parse_path ''proj'')"
    by (simp add: eval_defs)
  have d: "os_path_isdir (cwd ok_env) (files demo_world) ''proj''" by (simp add: eval_defs)
  have z: "trace demo_world = []" by (simp add: demo_world_def)
  have v: "list_all valid_name (cwd ok_env)" by (simp add: demo_defs valid_name_def)
  have ps: "path_str (PPath ''/'' [''w'', ''proj'']) = ''/w/proj''" by (simp add: path_str_def)
  have pn: "path_name (PPath ''/'' [''w'', ''proj'']) = ''proj''" by (simp add: path_name_def)
  from ingest_repo_local_marker[OF s u n p d r z v] show ?thesis
    unfolding ps pn by auto
qed

text \<open>
  Without the condition that a record is returned the marker file need not be
  written: where \<open>my_repos\<close> is a regular file, the input \<open>proj\<close> is local and an
  existing directory, the making of \<open>my_repos/Local/proj\<close> raises, and the run ends
  with that exception; nothing has been written and the tool has not been invoked.
\<close>

theorem ingest_repo_blocked_marker_counterexample:
  "\<not> is_probable_git_url (py_strip ''proj'')
   \<and> os_path_isdir (cwd ok_env) (files blocked_world) (normalize_local_path ok_env (py_strip ''proj''))
   \<and> fst (ingest_repo demo_self ok_env ''proj'' default_output_dir True default_indexes_dir
            blocked_world)
       = Inl (NotADirectoryError
                (''[Errno 20] Not a directory: '' @ [CHR 0x27] @ ''my_repos/Local/proj'' @ [CHR 0x27]))
   \<and> trace (snd (ingest_repo demo_self ok_env ''proj'' default_output_dir True default_indexes_dir
                   blocked_world)) = []
   \<and> \<not> path_exists (cwd ok_env)
          (files (snd (ingest_repo demo_self ok_env ''proj'' default_output_dir True
                         default_indexes_dir blocked_world)))
          (marker_file ''proj'')"
  by (simp add: marker_file_def eval_defs)

end
